theory Spec2Isabelle
  imports Main "HOL-Library.Word"
begin

unbundle bit_operations_syntax

section \<open>Bytes, blocks and C strings\<close>

text \<open>
  A \<^verbatim>\<open>char\<close> of the C source is a byte. Every comparison the source makes on a
  \<^verbatim>\<open>char\<close> is against an ASCII constant below 128, so reading the byte as unsigned
  or as signed gives the same answer; the checksum loop reads the block through an
  \<^verbatim>\<open>unsigned char *\<close>.
\<close>

type_synonym byte = "8 word"

text \<open>
  Modelled from the spec: \<^verbatim>\<open>TARBLKSZ\<close> is a macro of \<^verbatim>\<open>tarfn.h\<close>, which is not among the
  sources; the spec gives the block size as 512 bytes.
\<close>

definition TARBLKSZ :: nat where
  "TARBLKSZ = 512"

definition NUL :: byte where
  "NUL = 0"

definition SPACE :: byte where
  "SPACE = 0x20"

definition SLASH :: byte where
  "SLASH = 0x2F"

text \<open>
  A \<^verbatim>\<open>char *\<close> that the driver owns is modelled by the initialised bytes of the buffer it
  points to, terminator included when there is one. \<open>c_str\<close> is the string a C reader
  sees in such a buffer; \<open>strlen\<close> is defined only when a NUL lies inside the buffer
  (reading on past the buffer is undefined behaviour in C).
\<close>

definition c_str :: "byte list \<Rightarrow> byte list" where
  "c_str buf = takeWhile (\<lambda>c. c \<noteq> NUL) buf"

definition strlen :: "byte list \<Rightarrow> nat option" where
  "strlen buf = (if NUL \<in> set buf then Some (length (c_str buf)) else None)"

text \<open>\<^verbatim>\<open>strnlen(s, size)\<close>: the scan is bounded by \<open>size\<close>.\<close>

definition strnlen :: "byte list \<Rightarrow> nat \<Rightarrow> nat" where
  "strnlen s sz = length (takeWhile (\<lambda>c. c \<noteq> NUL) (take sz s))"

text \<open>\<^verbatim>\<open>m_strdup\<close>: a fresh buffer holding the string and its terminator.\<close>

definition m_strdup :: "byte list \<Rightarrow> byte list" where
  "m_strdup buf = c_str buf @ [NUL]"

section \<open>The header layout: \<^verbatim>\<open>struct TarHeader\<close>\<close>

text \<open>Field offsets and widths of the 500-byte header structure, in declaration order.\<close>

definition off_Name :: nat where "off_Name = 0"
definition off_Mode :: nat where "off_Mode = 100"
definition off_UserID :: nat where "off_UserID = 108"
definition off_GroupID :: nat where "off_GroupID = 116"
definition off_Size :: nat where "off_Size = 124"
definition off_ModificationTime :: nat where "off_ModificationTime = 136"
definition TarChecksumOffset :: nat where "TarChecksumOffset = 148"
definition off_LinkFlag :: nat where "off_LinkFlag = 156"
definition off_LinkName :: nat where "off_LinkName = 157"
definition off_MagicNumber :: nat where "off_MagicNumber = 257"
definition off_UserName :: nat where "off_UserName = 265"
definition off_GroupName :: nat where "off_GroupName = 297"
definition off_MajorDevice :: nat where "off_MajorDevice = 329"
definition off_MinorDevice :: nat where "off_MinorDevice = 337"
definition off_Prefix :: nat where "off_Prefix = 345"

definition TAR_MAGIC_USTAR :: "byte list" where
  "TAR_MAGIC_USTAR = [0x75, 0x73, 0x74, 0x61, 0x72, 0, 0x30, 0x30]"

definition TAR_MAGIC_GNU :: "byte list" where
  "TAR_MAGIC_GNU = [0x75, 0x73, 0x74, 0x61, 0x72, 0x20, 0x20, 0]"

section \<open>\<^verbatim>\<open>OtoL\<close>: octal ASCII to long\<close>

text \<open>
  \<open>s\<close> is the memory from the pointer the source passes to the end of the block. The
  first loop of the source skips spaces with no bound on \<open>size\<close>, which only counts
  down; the second loop reads a byte only while \<open>--size >= 0\<close>. The accumulator is the
  source's \<^verbatim>\<open>int n\<close>, a 32-bit word whose arithmetic wraps around; the \<^verbatim>\<open>long\<close>
  returned is its signed value. The equations for the empty list are reached only
  when the whole of \<open>s\<close> has been consumed, where \<open>size\<close> has dropped to zero or below
  for every call the decoder makes (see \<open>OtoL_field_only\<close>).
\<close>

fun OtoL_skip :: "byte list \<Rightarrow> int \<Rightarrow> byte list \<times> int" where
  "OtoL_skip [] sz = ([], sz)"
| "OtoL_skip (c # s) sz =
     (if c = SPACE then OtoL_skip s (sz - 1) else (c # s, sz))"

fun OtoL_digits :: "byte list \<Rightarrow> int \<Rightarrow> 32 word \<Rightarrow> 32 word" where
  "OtoL_digits [] sz n = n"
| "OtoL_digits (c # s) sz n =
     (if sz - 1 \<ge> 0 \<and> 0x30 \<le> c \<and> c \<le> 0x37
      then OtoL_digits s (sz - 1) (n * 8 + (ucast c - 0x30))
      else n)"

definition OtoL :: "byte list \<Rightarrow> int \<Rightarrow> int" where
  "OtoL s sz = (case OtoL_skip s sz of (s', sz') \<Rightarrow> sint (OtoL_digits s' sz' 0))"

text \<open>
  The octal parser as the specification words it: skip the leading spaces of the field,
  take the octal digits up to the first other byte or the end of the field, and read
  them in base 8.
\<close>

definition is_octal_digit :: "byte \<Rightarrow> bool" where
  "is_octal_digit c = (0x30 \<le> c \<and> c \<le> 0x37)"

definition octal_digits_of :: "byte list \<Rightarrow> byte list" where
  "octal_digits_of field = takeWhile is_octal_digit (dropWhile (\<lambda>c. c = SPACE) field)"

definition octal_value :: "byte list \<Rightarrow> int" where
  "octal_value field = foldl (\<lambda>n c. n * 8 + (uint c - 48)) 0 (octal_digits_of field)"

section \<open>\<^verbatim>\<open>StoC\<close> and \<^verbatim>\<open>get_prefix_name\<close>\<close>

definition StoC :: "byte list \<Rightarrow> nat \<Rightarrow> byte list" where
  "StoC s sz = take (strnlen s sz) s @ [NUL]"

text \<open>\<^verbatim>\<open>strcpy\<close> and \<^verbatim>\<open>strcat\<close> copy the strings of the two temporary buffers.\<close>

definition get_prefix_name :: "byte list \<Rightarrow> byte list" where
  "get_prefix_name block =
     (let prefix = StoC (drop off_Prefix block) 155;
          name = StoC (drop off_Name block) 100
      in c_str prefix @ [SLASH] @ c_str name @ [NUL])"

section \<open>The decoded entry: \<^verbatim>\<open>struct TarInfo\<close>\<close>

text \<open>
  Modelled from the spec: \<^verbatim>\<open>enum tar_format\<close> is declared in \<^verbatim>\<open>tarfn.h\<close>, which is not among
  the sources; the spec names the three formats, and the decoder assigns these three.
\<close>

datatype tar_format = tar_format_old | tar_format_gnu | tar_format_ustar

text \<open>
  Modelled from the spec: \<^verbatim>\<open>enum TarFileType\<close> is declared in \<^verbatim>\<open>tarfn.h\<close>. The spec names its
  ten members and says that the entry type is the link-flag byte itself; the members
  carry the type flags of the tar wire format (NUL, \<^verbatim>\<open>'0'\<close> to \<^verbatim>\<open>'6'\<close>, \<^verbatim>\<open>'K'\<close>, \<^verbatim>\<open>'L'\<close>).
  The type of an entry is modelled by that byte.
\<close>

definition NormalFile0 :: byte where "NormalFile0 = 0"
definition NormalFile1 :: byte where "NormalFile1 = 0x30"
definition HardLink :: byte where "HardLink = 0x31"
definition SymbolicLink :: byte where "SymbolicLink = 0x32"
definition CharacterDevice :: byte where "CharacterDevice = 0x33"
definition BlockDevice :: byte where "BlockDevice = 0x34"
definition Directory :: byte where "Directory = 0x35"
definition FIFO :: byte where "FIFO = 0x36"
definition GNU_LONGLINK :: byte where "GNU_LONGLINK = 0x4B"
definition GNU_LONGNAME :: byte where "GNU_LONGNAME = 0x4C"

text \<open>
  Modelled from the spec: \<^verbatim>\<open>struct TarInfo\<close> is declared in \<^verbatim>\<open>tarfn.h\<close>; its fields are the
  ten that the decoder assigns. \<open>Name\<close> and \<open>LinkName\<close> are \<^verbatim>\<open>char *\<close>; the integer fields
  have the widths of \<^verbatim>\<open>size_t\<close>, \<^verbatim>\<open>time_t\<close>, \<^verbatim>\<open>mode_t\<close>, \<^verbatim>\<open>uid_t\<close>, \<^verbatim>\<open>gid_t\<close> and \<^verbatim>\<open>dev_t\<close> in
  the LP64 Linux ABI, where \<^verbatim>\<open>int\<close> has 32 bits and \<^verbatim>\<open>long\<close> has 64.
\<close>

record TarInfo =
  format :: tar_format
  Type :: byte
  Name :: "byte list"
  LinkName :: "byte list"
  Size :: "64 word"
  ModTime :: int
  Mode :: "32 word"
  UserID :: "32 word"
  GroupID :: "32 word"
  Device :: "64 word"

text \<open>
  The system the driver runs on: the identity lookups \<^verbatim>\<open>getpwnam\<close> and \<^verbatim>\<open>getgrnam\<close> of the C
  library, and whether \<^verbatim>\<open>malloc\<close> gives a buffer of a requested number of bytes (a
  \<^verbatim>\<open>size_t\<close>).
\<close>

record sysdb =
  getpwnam :: "byte list \<Rightarrow> 32 word option"
  getgrnam :: "byte list \<Rightarrow> 32 word option"
  malloc_gives :: "64 word \<Rightarrow> bool"

text \<open>
  Modelled from the spec: \<^verbatim>\<open>m_malloc\<close> belongs to \<^verbatim>\<open>mlib.c\<close> of libdpkg, which is not among the
  sources; the spec has the long-name buffer freshly allocated with exactly the declared
  size. \<^verbatim>\<open>m_malloc\<close> returns the buffer that \<^verbatim>\<open>malloc\<close> gives, and when \<^verbatim>\<open>malloc\<close> gives none it
  reports a fatal error and does not return. No \<^verbatim>\<open>malloc\<close> gives more than \<open>PTRDIFF_MAX\<close>
  bytes; below that it depends on the system. The \<^verbatim>\<open>size_t\<close> of a size field that has
  overflowed \<open>OtoL\<close> to a negative value lies above \<open>PTRDIFF_MAX\<close>. (The small buffers of
  the decoder and of the symlink list, of at most 257 bytes and one node, are taken to
  be given.)
\<close>

definition PTRDIFF_MAX :: "64 word" where
  "PTRDIFF_MAX = 0x7FFFFFFFFFFFFFFF"

definition m_malloc_returns :: "sysdb \<Rightarrow> 64 word \<Rightarrow> bool" where
  "m_malloc_returns sys sz = (sz \<le> PTRDIFF_MAX \<and> malloc_gives sys sz)"

section \<open>\<^verbatim>\<open>DecodeTarHeader\<close>\<close>

definition header_format :: "byte list \<Rightarrow> tar_format" where
  "header_format block =
     (if take 6 (drop off_MagicNumber block) = take 6 TAR_MAGIC_GNU then tar_format_gnu
      else if take 6 (drop off_MagicNumber block) = take 6 TAR_MAGIC_USTAR then tar_format_ustar
      else tar_format_old)"

text \<open>
  The two summing loops of the source: the blank checksum field first, then the
  \<open>TarChecksumOffset\<close> bytes before the field, then the bytes after it up to the end of
  the block.
\<close>

definition header_sum :: "byte list \<Rightarrow> int" where
  "header_sum block =
     int (unat SPACE * 8)
     + int (sum_list (map unat (take TarChecksumOffset block)))
     + int (sum_list (map unat (take (TARBLKSZ - TarChecksumOffset - 8)
                                   (drop (TarChecksumOffset + 8) block))))"

definition DecodeTarHeader :: "sysdb \<Rightarrow> byte list \<Rightarrow> bool \<times> TarInfo" where
  "DecodeTarHeader sys block =
     (let fmt = header_format block;
          passwd = (if block ! off_UserName \<noteq> NUL
                    then getpwnam sys (c_str (drop off_UserName block)) else None);
          group = (if block ! off_GroupName \<noteq> NUL
                   then getgrnam sys (c_str (drop off_GroupName block)) else None);
          name = (if fmt = tar_format_ustar \<and> block ! off_Prefix \<noteq> NUL
                  then get_prefix_name block
                  else StoC (drop off_Name block) 100);
          checksum = OtoL (drop TarChecksumOffset block) 8;
          d = \<lparr> format = fmt,
                Type = block ! off_LinkFlag,
                Name = name,
                LinkName = StoC (drop off_LinkName block) 100,
                Size = word_of_int (OtoL (drop off_Size block) 12),
                ModTime = OtoL (drop off_ModificationTime block) 12,
                Mode = word_of_int (OtoL (drop off_Mode block) 8),
                UserID = (case passwd of Some uid \<Rightarrow> uid
                          | None \<Rightarrow> word_of_int (OtoL (drop off_UserID block) 8)),
                GroupID = (case group of Some gid \<Rightarrow> gid
                           | None \<Rightarrow> word_of_int (OtoL (drop off_GroupID block) 8)),
                Device = push_bit 8 (word_of_int (OtoL (drop off_MajorDevice block) 8) AND 0xff)
                         OR (word_of_int (OtoL (drop off_MinorDevice block) 8) AND 0xff) \<rparr>
      in (header_sum block = checksum, d))"

section \<open>\<^verbatim>\<open>TarExtractor\<close>\<close>

text \<open>
  Modelled from the spec: \<^verbatim>\<open>struct tar_operations\<close> is declared in \<^verbatim>\<open>tarfn.h\<close>; the driver
  calls its six members, the reader and the five operations of the spec. The context
  \<^verbatim>\<open>void *ctx\<close> is a value of type \<open>'c\<close> that every callback may change. \<open>read\<close> is given
  the context and the number of bytes wanted, and returns its status, the contents of
  the 512-byte block buffer after the call and the new context; the other five are
  given the context and the entry, and return their status and the new context.
\<close>

record 'c tar_operations =
  read :: "'c \<Rightarrow> nat \<Rightarrow> int \<times> byte list \<times> 'c"
  extract_file :: "'c \<Rightarrow> TarInfo \<Rightarrow> int \<times> 'c"
  link :: "'c \<Rightarrow> TarInfo \<Rightarrow> int \<times> 'c"
  symlink :: "'c \<Rightarrow> TarInfo \<Rightarrow> int \<times> 'c"
  mkdir :: "'c \<Rightarrow> TarInfo \<Rightarrow> int \<times> 'c"
  mknod :: "'c \<Rightarrow> TarInfo \<Rightarrow> int \<times> 'c"

text \<open>
  The driver's actions in the order it takes them: every call of a callback, with the
  status \<open>read\<close> returned or the entry the operation was given, and every symbolic link
  the main pass appends to its list.
\<close>

datatype event =
    Ev_read int
  | Ev_extract_file TarInfo
  | Ev_link TarInfo
  | Ev_symlink TarInfo
  | Ev_mkdir TarInfo
  | Ev_mknod TarInfo
  | Ev_defer TarInfo

record 'c tar_state =
  ctx :: 'c
  calls :: "event list"
  next_long_name :: "byte list option"
  next_long_link :: "byte list option"
  symlink_list :: "TarInfo list"

definition call_read :: "'c tar_operations \<Rightarrow> 'c tar_state \<Rightarrow> int \<times> byte list \<times> 'c tar_state" where
  "call_read ops st =
     (case read ops (ctx st) TARBLKSZ of
        (status, buffer, c) \<Rightarrow>
          (status, buffer, st\<lparr>ctx := c, calls := calls st @ [Ev_read status]\<rparr>))"

definition call_op ::
  "('c \<Rightarrow> TarInfo \<Rightarrow> int \<times> 'c) \<Rightarrow> (TarInfo \<Rightarrow> event) \<Rightarrow> TarInfo \<Rightarrow> 'c tar_state
     \<Rightarrow> int \<times> 'c tar_state" where
  "call_op f ev h st =
     (case f (ctx st) h of
        (status, c) \<Rightarrow> (status, st\<lparr>ctx := c, calls := calls st @ [ev h]\<rparr>))"

text \<open>
  One pass of the main loop breaks out of the loop with a status or goes round again,
  unless it does not end at all. \<open>Fault\<close> stands for a read the C standard leaves
  undefined: the driver looks for the string in a name buffer which holds no NUL (a
  long-name payload without terminator, or one cut short). \<open>Fatal\<close> stands for the
  fatal error of \<^verbatim>\<open>m_malloc\<close>, from which the driver does not return. The cases of the
  switch end likewise: \<open>Done\<close> with the status and the state, or in one of these two
  ways.
\<close>

datatype 'c flow = Fault | Fatal | Break int "'c tar_state" | Continue "'c tar_state"

datatype 'a outcome = Undefined_read | No_return | Done 'a

text \<open>Lines 213 to 222: an entry that is no long-name or long-link marker takes both
  pending buffers, and both are cleared.\<close>

definition apply_pending :: "TarInfo \<Rightarrow> 'c tar_state \<Rightarrow> TarInfo \<times> 'c tar_state" where
  "apply_pending h st =
     (if Type h \<noteq> GNU_LONGLINK \<and> Type h \<noteq> GNU_LONGNAME then
        (h\<lparr>Name := (case next_long_name st of Some b \<Rightarrow> b | None \<Rightarrow> Name h),
           LinkName := (case next_long_link st of Some b \<Rightarrow> b | None \<Rightarrow> LinkName h)\<rparr>,
         st\<lparr>next_long_link := None, next_long_name := None\<rparr>)
      else (h, st))"

text \<open>
  The \<^verbatim>\<open>for\<close> loop of lines 292 to 310. \<open>bp\<close> holds the bytes copied into the fresh
  buffer so far; \<open>status\<close> is the driver's status variable, which keeps its value when
  the loop body never runs.
\<close>

function read_long ::
  "'c tar_operations \<Rightarrow> int \<Rightarrow> int \<Rightarrow> byte list \<Rightarrow> 'c tar_state
     \<Rightarrow> int \<times> byte list \<times> 'c tar_state" where
  "read_long ops long_read status bp st =
     (if long_read > 0 then
        (case call_read ops st of
           (status', buffer, st') \<Rightarrow>
             if status' \<noteq> int TARBLKSZ
             then ((if status' > 0 then - 1 else status'), bp, st')
             else read_long ops (long_read - int TARBLKSZ) status'
                    (bp @ take (nat (min long_read (int TARBLKSZ))) buffer) st')
      else (status, bp, st))"
  by pat_completeness auto
termination
  by (relation "measure (\<lambda>(ops, long_read, status, bp, st). nat long_read)")
     (auto simp: TARBLKSZ_def)

text \<open>
  The marker case of the switch (lines 270 to 320). \<^verbatim>\<open>long_read = h.Size\<close> converts the
  \<^verbatim>\<open>size_t\<close> to \<^verbatim>\<open>int\<close>. \<^verbatim>\<open>m_malloc(h.Size)\<close> comes first: when it does not return, neither
  does the driver. Otherwise the slot is replaced by the fresh buffer before the reads,
  and keeps it when a read fails. \<open>status\<close> is \<open>TARBLKSZ\<close> on entry, the value the loop
  condition has just tested.
\<close>

definition do_long ::
  "'c tar_operations \<Rightarrow> sysdb \<Rightarrow> TarInfo \<Rightarrow> 'c tar_state \<Rightarrow> (int \<times> 'c tar_state) outcome" where
  "do_long ops sys h st =
     (if \<not> m_malloc_returns sys (Size h) then No_return
      else
        (case read_long ops (sint (ucast (Size h) :: 32 word)) (int TARBLKSZ) [] st of
           (status, bp, st') \<Rightarrow>
             (let st'' = (if Type h = GNU_LONGNAME
                          then st'\<lparr>next_long_name := Some bp\<rparr>
                          else st'\<lparr>next_long_link := Some bp\<rparr>)
              in if status < 0 then Done (status, st'') else Done (0, st''))))"

text \<open>The \<^verbatim>\<open>Directory\<close> case, which the regular-file case falls through to.\<close>

definition do_mkdir ::
  "'c tar_operations \<Rightarrow> TarInfo \<Rightarrow> nat \<Rightarrow> 'c tar_state \<Rightarrow> int \<times> 'c tar_state" where
  "do_mkdir ops h nameLength st =
     (let h' = (if Name h ! (nameLength - 1) = SLASH
                then h\<lparr>Name := (Name h)[nameLength - 1 := NUL]\<rparr> else h)
      in call_op (mkdir ops) Ev_mkdir h' st)"

text \<open>The \<^verbatim>\<open>SymbolicLink\<close> case: the node copies the entry and duplicates both strings.\<close>

definition do_symlink :: "TarInfo \<Rightarrow> 'c tar_state \<Rightarrow> (int \<times> 'c tar_state) outcome" where
  "do_symlink h st =
     (case strlen (LinkName h) of
        None \<Rightarrow> Undefined_read
      | Some _ \<Rightarrow>
          (let symlink_node = h\<lparr>Name := m_strdup (Name h), LinkName := m_strdup (LinkName h)\<rparr>
           in Done (0, st\<lparr>symlink_list := symlink_list st @ [symlink_node],
                          calls := calls st @ [Ev_defer symlink_node]\<rparr>)))"

text \<open>The switch of lines 233 to 325.\<close>

definition dispatch ::
  "'c tar_operations \<Rightarrow> sysdb \<Rightarrow> TarInfo \<Rightarrow> nat \<Rightarrow> 'c tar_state
     \<Rightarrow> (int \<times> 'c tar_state) outcome" where
  "dispatch ops sys h nameLength st =
     (if Type h = NormalFile0 \<or> Type h = NormalFile1 then
        (if Name h ! (nameLength - 1) \<noteq> SLASH
         then Done (call_op (extract_file ops) Ev_extract_file h st)
         else Done (do_mkdir ops h nameLength st))
      else if Type h = Directory then Done (do_mkdir ops h nameLength st)
      else if Type h = HardLink then Done (call_op (link ops) Ev_link h st)
      else if Type h = SymbolicLink then do_symlink h st
      else if Type h = CharacterDevice \<or> Type h = BlockDevice \<or> Type h = FIFO
        then Done (call_op (mknod ops) Ev_mknod h st)
      else if Type h = GNU_LONGLINK \<or> Type h = GNU_LONGNAME then do_long ops sys h st
      else Done (- 1, st))"

text \<open>The body of the \<^verbatim>\<open>while\<close> loop (lines 199 to 328), on the block just read.\<close>

definition loop_body :: "'c tar_operations \<Rightarrow> sysdb \<Rightarrow> byte list \<Rightarrow> 'c tar_state \<Rightarrow> 'c flow" where
  "loop_body ops sys buffer st =
     (case DecodeTarHeader sys buffer of
        (valid, h0) \<Rightarrow>
          if \<not> valid then
            (case Name h0 of
               [] \<Rightarrow> Fault
             | c # _ \<Rightarrow> if c = NUL then Break 0 st else Break (- 1) st)
          else
            (case apply_pending h0 st of
               (h, st1) \<Rightarrow>
                 (case Name h of
                    [] \<Rightarrow> Fault
                  | c # _ \<Rightarrow>
                      if c = NUL then Break (- 1) st1
                      else
                        (case strlen (Name h) of
                           None \<Rightarrow> Fault
                         | Some nameLength \<Rightarrow>
                             (case dispatch ops sys h nameLength st1 of
                                Undefined_read \<Rightarrow> Fault
                              | No_return \<Rightarrow> Fatal
                              | Done (status, st2) \<Rightarrow>
                                  if status \<noteq> 0 then Break status st2 else Continue st2)))))"

text \<open>The loop condition reads a block; the body runs when the read gives a whole block.\<close>

definition iteration :: "'c tar_operations \<Rightarrow> sysdb \<Rightarrow> 'c tar_state \<Rightarrow> 'c flow" where
  "iteration ops sys st =
     (case call_read ops st of
        (status, buffer, st1) \<Rightarrow>
          if status = int TARBLKSZ then loop_body ops sys buffer st1 else Break status st1)"

text \<open>
  The \<^verbatim>\<open>while\<close> loop. Nothing bounds the number of blocks a byte source delivers, so the
  loop is a partial function: \<open>None\<close> is the run that never leaves the loop. A pass that
  does not end ends the loop the same way.
\<close>

partial_function (option) main_loop ::
  "'c tar_operations \<Rightarrow> sysdb \<Rightarrow> 'c tar_state \<Rightarrow> 'c flow option" where
  "main_loop ops sys st =
     (case iteration ops sys st of
        Continue st' \<Rightarrow> main_loop ops sys st'
      | Break status st' \<Rightarrow> Some (Break status st')
      | Fault \<Rightarrow> Some Fault
      | Fatal \<Rightarrow> Some Fatal)"

declare main_loop.simps [code]

text \<open>Lines 331 to 339: the list is walked to its end; the operation is called while
  the status is zero.\<close>

fun drain :: "'c tar_operations \<Rightarrow> TarInfo list \<Rightarrow> int \<Rightarrow> 'c tar_state \<Rightarrow> int \<times> 'c tar_state" where
  "drain ops [] status st = (status, st)"
| "drain ops (n # ns) status st =
     (if status = 0
      then (case call_op (symlink ops) Ev_symlink n st of
              (status', st') \<Rightarrow> drain ops ns status' st')
      else drain ops ns status st)"

text \<open>
  How a call of \<^verbatim>\<open>TarExtractor\<close> ends: it returns, and \<open>Returned\<close> holds the value returned,
  the final context and the driver's actions; or it runs into undefined behaviour; or it
  is left through the fatal error of \<^verbatim>\<open>m_malloc\<close>.
\<close>

datatype 'c result = Undefined_behaviour | Fatal_error | Returned int 'c "event list"

definition initial_state :: "'c \<Rightarrow> 'c tar_state" where
  "initial_state c =
     \<lparr> ctx = c, calls = [], next_long_name = None, next_long_link = None, symlink_list = [] \<rparr>"

definition finish :: "'c tar_operations \<Rightarrow> int \<Rightarrow> 'c tar_state \<Rightarrow> 'c result" where
  "finish ops status st =
     (case drain ops (symlink_list st) status st of
        (status', st') \<Rightarrow>
          Returned (if status' > 0 then - 1 else status') (ctx st') (calls st'))"

text \<open>
  The driver from the top of the main loop on, in any state: the loop, then the drain
  and the return. (The loop never ends in \<open>Continue\<close>; see \<open>main_loop_not_Continue\<close>.)
\<close>

definition run_from :: "'c tar_operations \<Rightarrow> sysdb \<Rightarrow> 'c tar_state \<Rightarrow> 'c result option" where
  "run_from ops sys st =
     (case main_loop ops sys st of
        None \<Rightarrow> None
      | Some Fault \<Rightarrow> Some Undefined_behaviour
      | Some Fatal \<Rightarrow> Some Fatal_error
      | Some (Continue st') \<Rightarrow> None
      | Some (Break status st') \<Rightarrow> Some (finish ops status st'))"

definition TarExtractor :: "'c tar_operations \<Rightarrow> sysdb \<Rightarrow> 'c \<Rightarrow> 'c result option" where
  "TarExtractor ops sys c = run_from ops sys (initial_state c)"

section \<open>Notions of the specification\<close>

text \<open>The string a fixed-width field holds: it ends at the first NUL or at the field width.\<close>

definition field_string :: "byte list \<Rightarrow> nat \<Rightarrow> nat \<Rightarrow> byte list" where
  "field_string block off width = takeWhile (\<lambda>c. c \<noteq> NUL) (take width (drop off block))"

text \<open>Calls of the external symlink-creation operation, and the entries a sequence of
  actions has put on the list of deferred symbolic links, in order.\<close>

fun is_symlink_call :: "event \<Rightarrow> bool" where
  "is_symlink_call (Ev_symlink h) = True"
| "is_symlink_call e = False"

fun deferred :: "event list \<Rightarrow> TarInfo list" where
  "deferred [] = []"
| "deferred (Ev_defer h # es) = h # deferred es"
| "deferred (e # es) = deferred es"

text \<open>
  \<open>main_pass st st'\<close>: the driver has gone from \<open>st\<close> to \<open>st'\<close> by actions that are no
  symlink-creation calls, and the list of deferred links has grown by exactly the
  entries those actions deferred.
\<close>

definition main_pass :: "'c tar_state \<Rightarrow> 'c tar_state \<Rightarrow> bool" where
  "main_pass st st' =
     (\<exists>tr. calls st' = calls st @ tr \<and> list_all (\<lambda>e. \<not> is_symlink_call e) tr \<and>
           symlink_list st' = symlink_list st @ deferred tr)"


text \<open>
  \<open>ustar_split block prefix name\<close>: the block carries the ustar magic, and its prefix and
  name fields hold the two parts of a path, each NUL-padded to the width of the field.
\<close>

definition NUL_padded :: "nat \<Rightarrow> byte list \<Rightarrow> byte list" where
  "NUL_padded width s = s @ replicate (width - length s) NUL"

definition ustar_split :: "byte list \<Rightarrow> byte list \<Rightarrow> byte list \<Rightarrow> bool" where
  "ustar_split block prefix name =
     (length block = TARBLKSZ \<and>
      take 6 (drop off_MagicNumber block) = take 6 TAR_MAGIC_USTAR \<and>
      take 155 (drop off_Prefix block) = NUL_padded 155 prefix \<and>
      take 100 (drop off_Name block) = NUL_padded 100 name)"

text \<open>
  \<open>passes ops sys k st\<close>: the state of the driver after \<open>k\<close> further passes of the main
  loop, when each of them ends by going round the loop again.
\<close>

fun passes :: "'c tar_operations \<Rightarrow> sysdb \<Rightarrow> nat \<Rightarrow> 'c tar_state \<Rightarrow> 'c tar_state option" where
  "passes ops sys 0 st = Some st"
| "passes ops sys (Suc k) st =
     (case iteration ops sys st of
        Continue st' \<Rightarrow> passes ops sys k st'
      | Break status st' \<Rightarrow> None
      | Fault \<Rightarrow> None
      | Fatal \<Rightarrow> None)"

text \<open>
  Every deferred symlink-creation call succeeds: the calls on the nodes of the list, in
  order and each on the context which the one before has left, all return zero.
\<close>

fun symlinks_succeed :: "'c tar_operations \<Rightarrow> TarInfo list \<Rightarrow> 'c \<Rightarrow> bool" where
  "symlinks_succeed ops [] c = True"
| "symlinks_succeed ops (n # ns) c =
     (case symlink ops c n of (status, c') \<Rightarrow> status = 0 \<and> symlinks_succeed ops ns c')"

section \<open>Concrete archives\<close>

text \<open>
  Header blocks for the examples: a name, a type flag, a size field, a checksum field and
  a link name, each NUL-padded to its width; every other field is NUL.
\<close>

definition mk_header ::
  "byte list \<Rightarrow> byte \<Rightarrow> byte list \<Rightarrow> byte list \<Rightarrow> byte list \<Rightarrow> byte list" where
  "mk_header name typ size12 chk8 linkname =
     NUL_padded 100 name @ replicate 24 NUL @ NUL_padded 12 size12 @ replicate 12 NUL @ NUL_padded 8 chk8 @ [typ]
     @ NUL_padded 100 linkname @ replicate 255 NUL"

text \<open>A ustar header that splits a path into prefix and name; its other fields are NUL.\<close>

definition ustar_header :: "byte list \<Rightarrow> byte list \<Rightarrow> byte list" where
  "ustar_header prefix name =
     NUL_padded 100 name @ replicate 157 NUL @ TAR_MAGIC_USTAR @ replicate 80 NUL
     @ NUL_padded 155 prefix @ replicate 12 NUL"

definition zero_block :: "byte list" where
  "zero_block = replicate 512 NUL"

text \<open>Regular file \<open>a\<close>; regular file and directory \<open>d/\<close>; symbolic links \<open>l\<close> and \<open>m\<close> to
  \<open>t\<close>; hard link \<open>h\<close> to \<open>x\<close>.\<close>

definition file_a :: "byte list" where
  "file_a = mk_header [0x61] NormalFile1 [] [0x36, 0x32, 0x31] []"

definition file_d_slash :: "byte list" where
  "file_d_slash = mk_header [0x64, 0x2F] NormalFile1 [] [0x37, 0x30, 0x33] []"

definition dir_d :: "byte list" where
  "dir_d = mk_header [0x64, 0x2F] Directory [] [0x37, 0x31, 0x30] []"

definition symlink_l :: "byte list" where
  "symlink_l = mk_header [0x6C] SymbolicLink [] [0x31, 0x30, 0x32, 0x32] [0x74]"

definition symlink_m :: "byte list" where
  "symlink_m = mk_header [0x6D] SymbolicLink [] [0x31, 0x30, 0x32, 0x33] [0x74]"


text \<open>Long-name and long-link markers of the given one-digit size, and payload blocks.\<close>

definition longname_marker :: "byte \<Rightarrow> byte list \<Rightarrow> byte list" where
  "longname_marker digit chk = mk_header [0x4C] GNU_LONGNAME [digit] chk []"


definition payload_ab :: "byte list" where
  "payload_ab = NUL_padded 512 [0x61, 0x62, NUL]"

text \<open>No user or group name resolves, and every allocation up to \<open>PTRDIFF_MAX\<close> is given.\<close>

definition nosys :: sysdb where
  "nosys = \<lparr> getpwnam = (\<lambda>_. None), getgrnam = (\<lambda>_. None), malloc_gives = (\<lambda>_. True) \<rparr>"

text \<open>
  A byte source that hands out the blocks of a list one by one and then reports the end
  of the stream, with operations that return the given status for file extraction and
  for symlink creation and succeed otherwise.
\<close>

definition stream_ops :: "int \<Rightarrow> int \<Rightarrow> (byte list list) tar_operations" where
  "stream_ops ex sy =
     \<lparr> read = (\<lambda>c n. case c of [] \<Rightarrow> (0, [], []) | b # bs \<Rightarrow> (int (length b), b, bs)),
       extract_file = (\<lambda>c h. (ex, c)),
       link = (\<lambda>c h. (0, c)),
       symlink = (\<lambda>c h. (sy, c)),
       mkdir = (\<lambda>c h. (0, c)),
       mknod = (\<lambda>c h. (0, c)) \<rparr>"

text \<open>
  Operations on an exhausted source that keep a log as their context: each one adds the
  entry it is called with, and succeeds.
\<close>

definition logging_ops :: "(event list) tar_operations" where
  "logging_ops =
     \<lparr> read = (\<lambda>c n. (0, [], c)),
       extract_file = (\<lambda>c h. (0, c @ [Ev_extract_file h])),
       link = (\<lambda>c h. (0, c @ [Ev_link h])),
       symlink = (\<lambda>c h. (0, c @ [Ev_symlink h])),
       mkdir = (\<lambda>c h. (0, c @ [Ev_mkdir h])),
       mknod = (\<lambda>c h. (0, c @ [Ev_mknod h])) \<rparr>"

definition no_log :: "event list" where
  "no_log = []"

text \<open>The decoded entry of such a header: old format, every numeric field zero.\<close>

definition entry :: "byte \<Rightarrow> byte list \<Rightarrow> byte list \<Rightarrow> TarInfo" where
  "entry typ name linkname =
     \<lparr> format = tar_format_old, Type = typ, Name = name, LinkName = linkname, Size = 0,
       ModTime = 0, Mode = 0, UserID = 0, GroupID = 0, Device = 0 \<rparr>"

text \<open>The exhausted byte source.\<close>

definition no_blocks :: "byte list list" where
  "no_blocks = []"

text \<open>A state of the driver with no pending long name or link and no deferred link.\<close>

definition state_of :: "byte list list \<Rightarrow> event list \<Rightarrow> (byte list list) tar_state" where
  "state_of bs evs =
     \<lparr> ctx = bs, calls = evs, next_long_name = None, next_long_link = None, symlink_list = [] \<rparr>"

text \<open>The header of file \<open>a\<close> with an empty checksum field.\<close>

definition file_a_corrupt :: "byte list" where
  "file_a_corrupt = mk_header [0x61] NormalFile1 [] [] []"


section \<open>Properties of the octal parser\<close>

lemma OtoL_skip_le: "OtoL_skip s sz = (s', sz') \<Longrightarrow> sz' \<le> sz"
proof (induction s arbitrary: sz)
  case Nil
  then show ?case by simp
next
  case (Cons c s)
  show ?case
  proof (cases "c = SPACE")
    case True
    with Cons.prems have "OtoL_skip s (sz - 1) = (s', sz')" by simp
    from Cons.IH [OF this] show ?thesis by simp
  next
    case False
    with Cons.prems show ?thesis by simp
  qed
qed

lemma OtoL_digits_nonpos: "sz \<le> 0 \<Longrightarrow> OtoL_digits s sz n = n"
  by (cases s) auto

lemma OtoL_digits_append:
  "sz \<le> int (length f) \<Longrightarrow> OtoL_digits (f @ rest) sz n = OtoL_digits f sz n"
proof (induction f arbitrary: sz n)
  case Nil
  then show ?case by (simp add: OtoL_digits_nonpos)
next
  case (Cons c f)
  then show ?case by simp
qed

lemma OtoL_append_aux:
  "sz \<le> int (length f) \<Longrightarrow>
     (case OtoL_skip (f @ rest) sz of (s', sz') \<Rightarrow> OtoL_digits s' sz' n)
     = (case OtoL_skip f sz of (s', sz') \<Rightarrow> OtoL_digits s' sz' n)"
proof (induction f arbitrary: sz)
  case Nil
  obtain s' sz' where sk: "OtoL_skip rest sz = (s', sz')" by (cases "OtoL_skip rest sz")
  from OtoL_skip_le [OF sk] Nil have "sz' \<le> 0" by simp
  with sk Nil show ?case by (simp add: OtoL_digits_nonpos)
next
  case (Cons c f)
  show ?case
  proof (cases "c = SPACE")
    case True
    with Cons.IH [of "sz - 1"] Cons.prems show ?thesis by simp
  next
    case False
    with OtoL_digits_append [of sz "c # f" rest n] Cons.prems show ?thesis by simp
  qed
qed

lemma OtoL_field_only: "OtoL (f @ rest) (int (length f)) = OtoL f (int (length f))"
proof -
  have "(case OtoL_skip (f @ rest) (int (length f)) of (s', sz') \<Rightarrow> OtoL_digits s' sz' 0)
      = (case OtoL_skip f (int (length f)) of (s', sz') \<Rightarrow> OtoL_digits s' sz' 0)"
    by (rule OtoL_append_aux) simp
  then show ?thesis
    by (simp add: OtoL_def split: prod.splits)
qed

lemma OtoL_skip_dropWhile:
  "OtoL_skip s sz = (dropWhile (\<lambda>c. c = SPACE) s, sz - int (length (takeWhile (\<lambda>c. c = SPACE) s)))"
  by (induction s arbitrary: sz) auto

lemma digit_step:
  "(word_of_int a :: 32 word) * 8 + (ucast (c :: byte) - 0x30) = word_of_int (a * 8 + (uint c - 48))"
proof -
  have "(ucast c :: 32 word) = word_of_int (uint c)"
    by simp
  then show ?thesis
    by (simp only: wi_hom_syms) simp
qed

lemma OtoL_digits_foldl:
  "int (length s) \<le> sz \<Longrightarrow>
     OtoL_digits s sz (word_of_int a)
     = word_of_int (foldl (\<lambda>n c. n * 8 + (uint c - 48)) a (takeWhile is_octal_digit s))"
proof (induction s arbitrary: sz a)
  case Nil
  then show ?case by simp
next
  case (Cons c s)
  show ?case
  proof (cases "is_octal_digit c")
    case True
    have "OtoL_digits (c # s) sz (word_of_int a)
        = OtoL_digits s (sz - 1) (word_of_int a * 8 + (ucast c - 0x30))"
      using True Cons.prems by (simp add: is_octal_digit_def)
    also have "\<dots> = OtoL_digits s (sz - 1) (word_of_int (a * 8 + (uint c - 48)))"
      by (simp only: digit_step)
    also have "\<dots> = word_of_int (foldl (\<lambda>n c. n * 8 + (uint c - 48)) (a * 8 + (uint c - 48))
                                 (takeWhile is_octal_digit s))"
      by (rule Cons.IH) (use Cons.prems in simp)
    finally show ?thesis using True by simp
  next
    case False
    then have "\<not> (0x30 \<le> c \<and> c \<le> 0x37)" by (simp add: is_octal_digit_def)
    then have "OtoL_digits (c # s) sz (word_of_int a) = word_of_int a" by auto
    with False show ?thesis by simp
  qed
qed

lemma OtoL_octal_value:
  "OtoL f (int (length f)) = sint (word_of_int (octal_value f) :: 32 word)"
proof -
  let ?d = "dropWhile (\<lambda>c. c = SPACE) f"
  let ?k = "length (takeWhile (\<lambda>c. c = SPACE) f)"
  have "length (takeWhile (\<lambda>c. c = SPACE) f @ ?d) = ?k + length ?d"
    by (rule length_append)
  then have len: "length f = ?k + length ?d"
    by (simp only: takeWhile_dropWhile_id)
  have "OtoL_digits ?d (int (length f) - int ?k) (word_of_int 0)
      = word_of_int (foldl (\<lambda>n c. n * 8 + (uint c - 48)) 0 (takeWhile is_octal_digit ?d))"
    by (rule OtoL_digits_foldl) (use len in simp)
  then show ?thesis
    by (simp add: OtoL_def OtoL_skip_dropWhile octal_value_def octal_digits_of_def)
qed

lemma octal_fold_bounds:
  "0 \<le> a \<Longrightarrow> \<forall>c \<in> set ds. is_octal_digit c \<Longrightarrow>
     0 \<le> foldl (\<lambda>n c. n * 8 + (uint c - 48)) a ds \<and>
     foldl (\<lambda>n c. n * 8 + (uint c - 48)) a ds < (a + 1) * 8 ^ length ds"
proof (induction ds arbitrary: a)
  case Nil
  then show ?case by simp
next
  case (Cons c ds)
  from Cons.prems have "is_octal_digit c" by simp
  then have "48 \<le> uint c \<and> uint c \<le> 55"
    by (simp add: is_octal_digit_def word_le_def)
  then have d: "0 \<le> uint c - 48" "uint c - 48 \<le> 7" by simp_all
  let ?a = "a * 8 + (uint c - 48)"
  have a0: "0 \<le> ?a" using Cons.prems(1) d by simp
  have IH: "0 \<le> foldl (\<lambda>n c. n * 8 + (uint c - 48)) ?a ds \<and>
     foldl (\<lambda>n c. n * 8 + (uint c - 48)) ?a ds < (?a + 1) * 8 ^ length ds"
    by (rule Cons.IH [OF a0]) (use Cons.prems in simp)
  have "?a + 1 \<le> (a + 1) * 8" using d by simp
  then have le: "(?a + 1) * 8 ^ length ds \<le> ((a + 1) * 8) * 8 ^ length ds"
    by (rule mult_right_mono) simp
  have eq: "((a + 1) * 8) * 8 ^ length ds = (a + 1) * 8 ^ length (c # ds)"
    by simp
  from IH have "foldl (\<lambda>n c. n * 8 + (uint c - 48)) ?a ds < (?a + 1) * 8 ^ length ds"
    by (rule conjunct2)
  also note le
  also note eq
  finally have "foldl (\<lambda>n c. n * 8 + (uint c - 48)) ?a ds < (a + 1) * 8 ^ length (c # ds)" .
  moreover from IH have "0 \<le> foldl (\<lambda>n c. n * 8 + (uint c - 48)) ?a ds"
    by (rule conjunct1)
  ultimately show ?case by (simp only: foldl_Cons) 
qed

lemma octal_value_bounds:
  "0 \<le> octal_value f \<and> octal_value f < 8 ^ length f"
proof -
  have all: "\<forall>c \<in> set (octal_digits_of f). is_octal_digit c"
    unfolding octal_digits_of_def by (auto dest: set_takeWhileD)
  have "length (octal_digits_of f) \<le> length (dropWhile (\<lambda>c. c = SPACE) f)"
    unfolding octal_digits_of_def by (rule length_takeWhile_le)
  also have "\<dots> \<le> length f" by (rule length_dropWhile_le)
  finally have len: "length (octal_digits_of f) \<le> length f" .
  from octal_fold_bounds [of 0, OF _ all]
  have b: "0 \<le> octal_value f" "octal_value f < 8 ^ length (octal_digits_of f)"
    by (simp_all add: octal_value_def)
  have "(8::int) ^ length (octal_digits_of f) \<le> 8 ^ length f"
    using len by (intro power_increasing) simp_all
  with b(2) have "octal_value f < 8 ^ length f" by (rule less_le_trans)
  with b(1) show ?thesis by (rule conjI)
qed

lemma OtoL_exact:
  assumes "length f \<le> 10"
  shows "OtoL (f @ rest) (int (length f)) = octal_value f"
proof -
  from octal_value_bounds [of f] have b: "0 \<le> octal_value f" "octal_value f < 8 ^ length f"
    by simp_all
  have "(8::int) ^ length f \<le> 8 ^ 10"
    using assms by (intro power_increasing) simp_all
  with b have lt: "octal_value f < 2 ^ 31" by simp
  have "sint (word_of_int (octal_value f) :: 32 word) = octal_value f"
    using b(1) lt by (simp add: sint_sbintrunc' signed_take_bit_int_eq_self)
  then show ?thesis
    by (simp add: OtoL_field_only OtoL_octal_value)
qed

lemma OtoL_exact_small:
  assumes "octal_value f < 2 ^ 31"
  shows "OtoL (f @ rest) (int (length f)) = octal_value f"
proof -
  from octal_value_bounds [of f] have "0 \<le> octal_value f" by simp
  with assms have "sint (word_of_int (octal_value f) :: 32 word) = octal_value f"
    by (simp add: sint_sbintrunc' signed_take_bit_int_eq_self)
  then show ?thesis
    by (simp add: OtoL_field_only OtoL_octal_value)
qed

lemma OtoL_examples:
  "OtoL [0x30, 0x30, 0x30, 0x30, 0x30, 0x30, 0x37, 0x20] 8 = 7"
  "OtoL (replicate 8 SPACE) 8 = 0"
  "OtoL [0x31, 0x32, 0x33, NUL, 0x37, 0x37, 0x37, 0x37] 8 = 83"
  by code_simp+

section \<open>Properties of the header decoder\<close>

lemma take_length_takeWhile_take:
  "take (length (takeWhile P (take n s))) s = takeWhile P (take n s)"
proof -
  have "take (length (takeWhile P (take n s))) (take n s) = takeWhile P (take n s)"
    by (rule takeWhile_eq_take [symmetric])
  moreover have "length (takeWhile P (take n s)) \<le> n"
    using length_takeWhile_le [of P "take n s"] by simp
  ultimately show ?thesis by (simp add: min_def)
qed

lemma c_str_no_NUL: "NUL \<notin> set s \<Longrightarrow> c_str (s @ NUL # rest) = s"
  by (induction s) (auto simp: c_str_def)

lemma takeWhile_not_NUL: "NUL \<notin> set (takeWhile (\<lambda>c. c \<noteq> NUL) s)"
  by (auto dest: set_takeWhileD)

lemma c_str_StoC: "c_str (StoC (drop off block) width) = field_string block off width"
  unfolding StoC_def strnlen_def field_string_def take_length_takeWhile_take
  by (rule c_str_no_NUL) (rule takeWhile_not_NUL)

lemma c_str_get_prefix_name:
  "c_str (get_prefix_name block)
     = field_string block off_Prefix 155 @ [SLASH] @ field_string block off_Name 100"
proof -
  let ?p = "field_string block off_Prefix 155"
  let ?n = "field_string block off_Name 100"
  have "NUL \<notin> set (?p @ [SLASH] @ ?n)"
    using takeWhile_not_NUL by (auto simp: field_string_def SLASH_def NUL_def)
  then have "c_str ((?p @ [SLASH] @ ?n) @ NUL # []) = ?p @ [SLASH] @ ?n"
    by (rule c_str_no_NUL)
  then show ?thesis
    by (simp add: get_prefix_name_def c_str_StoC)
qed

lemma Name_Decode:
  "Name (snd (DecodeTarHeader sys block))
     = (if header_format block = tar_format_ustar \<and> block ! off_Prefix \<noteq> NUL
        then get_prefix_name block else StoC (drop off_Name block) 100)"
  by (simp add: DecodeTarHeader_def Let_def)

lemma fst_Decode:
  "fst (DecodeTarHeader sys block) = (header_sum block = OtoL (drop TarChecksumOffset block) 8)"
  by (simp add: DecodeTarHeader_def Let_def)

lemma Decode_checksum_field:
  assumes "length block = TARBLKSZ"
  shows "OtoL (drop TarChecksumOffset block) 8 = octal_value (take 8 (drop TarChecksumOffset block))"
proof -
  let ?f = "take 8 (drop TarChecksumOffset block)"
  have len: "length ?f = 8"
    using assms by (simp add: TARBLKSZ_def TarChecksumOffset_def)
  have "drop TarChecksumOffset block = ?f @ drop 8 (drop TarChecksumOffset block)"
    by (rule append_take_drop_id [symmetric])
  then have "OtoL (drop TarChecksumOffset block) 8
               = OtoL (?f @ drop 8 (drop TarChecksumOffset block)) (int (length ?f))"
    using len by simp
  also have "\<dots> = octal_value ?f"
    by (rule OtoL_exact) (use len in simp)
  finally show ?thesis .
qed

lemma header_sum_blanked:
  assumes "length block = TARBLKSZ"
  shows "header_sum block
           = int (sum_list (map unat (take TarChecksumOffset block @ replicate 8 SPACE
                                        @ drop (TarChecksumOffset + 8) block)))"
proof -
  have "take (TARBLKSZ - TarChecksumOffset - 8) (drop (TarChecksumOffset + 8) block)
          = drop (TarChecksumOffset + 8) block"
    using assms by simp
  then show ?thesis
    by (simp add: header_sum_def sum_list_replicate)
qed

lemma field_string_padded:
  assumes "take width (drop off block) = NUL_padded width s" "NUL \<notin> set s"
  shows "field_string block off width = s"
proof -
  have "takeWhile (\<lambda>c. c \<noteq> NUL) (s @ replicate k NUL) = s" for k
    using assms(2) by (induction s) (auto simp: takeWhile_replicate)
  with assms(1) show ?thesis by (simp add: field_string_def NUL_padded_def)
qed

lemma first_of_padded:
  assumes "take width (drop off block) = NUL_padded width s" "s \<noteq> []" "off < length block" "0 < width"
  shows "block ! off = hd s"
proof -
  have "block ! off = (drop off block) ! 0" using assms(3) by simp
  also have "\<dots> = (take width (drop off block)) ! 0" using assms(4) by simp
  also have "\<dots> = hd s" using assms(1,2) by (cases s) (simp_all add: NUL_padded_def)
  finally show ?thesis .
qed

section \<open>Properties of the driver\<close>

subsection \<open>The main loop\<close>

lemma main_loop_Break:
  "iteration ops sys st = Break status st' \<Longrightarrow> main_loop ops sys st = Some (Break status st')"
  by (subst main_loop.simps) simp

lemma main_loop_Fault:
  "iteration ops sys st = Fault \<Longrightarrow> main_loop ops sys st = Some Fault"
  by (subst main_loop.simps) simp

lemma main_loop_Fatal:
  "iteration ops sys st = Fatal \<Longrightarrow> main_loop ops sys st = Some Fatal"
  by (subst main_loop.simps) simp

lemma main_loop_Continue:
  "iteration ops sys st = Continue st' \<Longrightarrow> main_loop ops sys st = main_loop ops sys st'"
  by (subst main_loop.simps) simp

lemma main_loop_cases:
  assumes run: "main_loop ops sys st = Some r"
      and stop: "\<And>st. (\<forall>st'. iteration ops sys st \<noteq> Continue st') \<Longrightarrow>
                   P st (iteration ops sys st)"
      and cont: "\<And>st st' r. iteration ops sys st = Continue st' \<Longrightarrow> P st' r \<Longrightarrow> P st r"
  shows "P st r"
proof -
  have "ops = ops \<longrightarrow> sys = sys \<longrightarrow> P st r"
  proof (rule main_loop.raw_induct
      [where P = "\<lambda>ops' sys' st r. ops' = ops \<longrightarrow> sys' = sys \<longrightarrow> P st r", OF _ run])
    fix f ops' sys' st r
    assume IH: "\<And>ops' sys' st r. f ops' sys' st = Some r \<Longrightarrow> ops' = ops \<longrightarrow> sys' = sys \<longrightarrow> P st r"
       and eq: "(case iteration ops' sys' st of
                   Fault \<Rightarrow> Some Fault
                 | Fatal \<Rightarrow> Some Fatal
                 | Break status st' \<Rightarrow> Some (Break status st')
                 | Continue st' \<Rightarrow> f ops' sys' st') = Some r"
    show "ops' = ops \<longrightarrow> sys' = sys \<longrightarrow> P st r"
    proof (intro impI)
      assume o: "ops' = ops" and s: "sys' = sys"
      show "P st r"
      proof (cases "iteration ops sys st")
        case Fault
        with eq o s have "r = iteration ops sys st" by simp
        moreover have "P st (iteration ops sys st)"
          by (rule stop) (simp add: Fault)
        ultimately show ?thesis by simp
      next
        case Fatal
        with eq o s have "r = iteration ops sys st" by simp
        moreover have "P st (iteration ops sys st)"
          by (rule stop) (simp add: Fatal)
        ultimately show ?thesis by simp
      next
        case (Break status st')
        with eq o s have "r = iteration ops sys st" by simp
        moreover have "P st (iteration ops sys st)"
          by (rule stop) (simp add: Break)
        ultimately show ?thesis by simp
      next
        case (Continue st')
        with eq o s have "f ops sys st' = Some r" by simp
        from IH [OF this] have "P st' r" by simp
        with Continue show ?thesis by (rule cont)
      qed
    qed
  qed
  then show ?thesis by simp
qed

lemma main_loop_not_Continue: "main_loop ops sys st = Some r \<Longrightarrow> r \<noteq> Continue st'"
  by (erule main_loop_cases [where P = "\<lambda>st r. r \<noteq> Continue st'"]) simp_all

lemma run_from_Break:
  "iteration ops sys st = Break status st' \<Longrightarrow> run_from ops sys st = Some (finish ops status st')"
  by (simp add: run_from_def main_loop_Break)

lemma run_from_Continue:
  "iteration ops sys st = Continue st' \<Longrightarrow> run_from ops sys st = run_from ops sys st'"
  by (simp add: run_from_def main_loop_Continue)

lemma run_from_Fault:
  "iteration ops sys st = Fault \<Longrightarrow> run_from ops sys st = Some Undefined_behaviour"
  by (simp add: run_from_def main_loop_Fault)

lemma run_from_Fatal:
  "iteration ops sys st = Fatal \<Longrightarrow> run_from ops sys st = Some Fatal_error"
  by (simp add: run_from_def main_loop_Fatal)

lemma run_from_passes:
  "passes ops sys k st = Some st' \<Longrightarrow> run_from ops sys st = run_from ops sys st'"
proof (induction k arbitrary: st)
  case 0
  then show ?case by simp
next
  case (Suc k)
  then obtain st1 where i: "iteration ops sys st = Continue st1"
    and p: "passes ops sys k st1 = Some st'"
    by (auto split: flow.splits)
  from run_from_Continue [OF i] Suc.IH [OF p] show ?case by simp
qed

lemma TarExtractor_passes:
  "passes ops sys k (initial_state c) = Some st \<Longrightarrow> TarExtractor ops sys c = run_from ops sys st"
  unfolding TarExtractor_def by (rule run_from_passes)

subsection \<open>Invariants of the main pass\<close>

lemma main_pass_refl: "main_pass st st"
  by (simp add: main_pass_def)

lemma deferred_append: "deferred (xs @ ys) = deferred xs @ deferred ys"
  by (induction xs rule: deferred.induct) simp_all

lemma main_pass_trans: "main_pass st st' \<Longrightarrow> main_pass st' st'' \<Longrightarrow> main_pass st st''"
  unfolding main_pass_def
proof (elim exE conjE)
  fix tr tr'
  assume a: "calls st' = calls st @ tr" "list_all (\<lambda>e. \<not> is_symlink_call e) tr"
            "symlink_list st' = symlink_list st @ deferred tr"
     and b: "calls st'' = calls st' @ tr'" "list_all (\<lambda>e. \<not> is_symlink_call e) tr'"
            "symlink_list st'' = symlink_list st' @ deferred tr'"
  show "\<exists>tr. calls st'' = calls st @ tr \<and> list_all (\<lambda>e. \<not> is_symlink_call e) tr \<and>
             symlink_list st'' = symlink_list st @ deferred tr"
    by (rule exI [of _ "tr @ tr'"]) (simp add: a b deferred_append)
qed

lemma main_pass_call_read: "call_read ops st = (status, buffer, st') \<Longrightarrow> main_pass st st'"
  unfolding main_pass_def call_read_def
  by (rule exI [of _ "[Ev_read status]"]) (auto split: prod.splits)

lemma main_pass_call_op:
  assumes "call_op f ev h st = (status, st')" "\<not> is_symlink_call (ev h)" "deferred [ev h] = []"
  shows "main_pass st st'"
  unfolding main_pass_def
  by (rule exI [of _ "[ev h]"]) (use assms in \<open>auto simp: call_op_def split: prod.splits\<close>)

lemma main_pass_do_mkdir: "do_mkdir ops h n st = (status, st') \<Longrightarrow> main_pass st st'"
  unfolding do_mkdir_def Let_def
  by (erule main_pass_call_op) simp_all

lemma main_pass_do_symlink: "do_symlink h st = Done (status, st') \<Longrightarrow> main_pass st st'"
  unfolding main_pass_def do_symlink_def Let_def
  by (rule exI [of _ "[Ev_defer (h\<lparr>Name := m_strdup (Name h), LinkName := m_strdup (LinkName h)\<rparr>)]"])
     (auto split: option.splits)

lemma main_pass_read_long:
  "read_long ops long_read status bp st = (status', bp', st') \<Longrightarrow> main_pass st st'"
proof (induction ops long_read status bp st rule: read_long.induct)
  case (1 ops long_read status bp st)
  show ?case
  proof (cases "long_read > 0")
    case False
    with "1.prems" show ?thesis by (simp add: main_pass_refl)
  next
    case True
    obtain s1 buffer st1 where r: "call_read ops st = (s1, buffer, st1)"
      by (cases "call_read ops st")
    have p1: "main_pass st st1" by (rule main_pass_call_read [OF r])
    show ?thesis
    proof (cases "s1 = int TARBLKSZ")
      case False
      with True r "1.prems" have "st' = st1" by (simp split: if_splits)
      with p1 show ?thesis by simp
    next
      case eq: True
      with True r "1.prems"
      have "read_long ops (long_read - int TARBLKSZ) s1
              (bp @ take (nat (min long_read (int TARBLKSZ))) buffer) st1 = (status', bp', st')"
        by simp
      with "1.IH" [OF True r [symmetric] refl] eq have "main_pass st1 st'" by simp 
      with p1 show ?thesis by (rule main_pass_trans)
    qed
  qed
qed


lemma main_pass_do_long: "do_long ops sys h st = Done (status, st') \<Longrightarrow> main_pass st st'"
proof -
  assume a: "do_long ops sys h st = Done (status, st')"
  obtain s1 bp st1 where r: "read_long ops (sint (ucast (Size h) :: 32 word)) (int TARBLKSZ) [] st = (s1, bp, st1)"
    by (cases "read_long ops (sint (ucast (Size h) :: 32 word)) (int TARBLKSZ) [] st")
  from main_pass_read_long [OF r] have "main_pass st st1" .
  moreover from a r have "calls st' = calls st1 \<and> symlink_list st' = symlink_list st1"
    by (auto simp: do_long_def Let_def split: if_splits)
  ultimately show ?thesis by (simp add: main_pass_def)
qed

lemma main_pass_dispatch: "dispatch ops sys h n st = Done (status, st') \<Longrightarrow> main_pass st st'"
  unfolding dispatch_def
  by (auto split: if_splits
           intro: main_pass_refl main_pass_do_mkdir main_pass_do_symlink main_pass_do_long
           elim: main_pass_call_op)

lemma apply_pending_calls:
  "apply_pending h st = (h', st') \<Longrightarrow>
     calls st' = calls st \<and> symlink_list st' = symlink_list st \<and> ctx st' = ctx st"
  by (auto simp: apply_pending_def split: if_splits)

lemma main_pass_apply_pending: "apply_pending h st = (h', st') \<Longrightarrow> main_pass st st'"
  by (drule apply_pending_calls) (simp add: main_pass_def)

lemma main_pass_loop_body:
  assumes "loop_body ops sys buffer st = r" "r = Break status st' \<or> r = Continue st'"
  shows "main_pass st st'"
proof -
  obtain valid h0 where d: "DecodeTarHeader sys buffer = (valid, h0)"
    by (cases "DecodeTarHeader sys buffer")
  show ?thesis
  proof (cases valid)
    case False
    with assms d have "st' = st"
      by (auto simp: loop_body_def split: list.splits if_splits)
    then show ?thesis by (simp add: main_pass_refl)
  next
    case True
    obtain h st1 where p: "apply_pending h0 st = (h, st1)"
      by (cases "apply_pending h0 st")
    have p1: "main_pass st st1" by (rule main_pass_apply_pending [OF p])
    from assms d True p
    have "st' = st1 \<or> (\<exists>n s. dispatch ops sys h n st1 = Done (s, st'))"
      by (auto simp: loop_body_def split: list.splits if_splits option.splits outcome.splits)
    then show ?thesis
    proof
      assume "st' = st1" with p1 show ?thesis by simp
    next
      assume "\<exists>n s. dispatch ops sys h n st1 = Done (s, st')"
      then obtain n s where "dispatch ops sys h n st1 = Done (s, st')" by blast
      then have "main_pass st1 st'" by (rule main_pass_dispatch)
      with p1 show ?thesis by (rule main_pass_trans)
    qed
  qed
qed

lemma main_pass_iteration:
  assumes "iteration ops sys st = r" "r = Break status st' \<or> r = Continue st'"
  shows "main_pass st st'"
proof -
  obtain s1 buffer st1 where r: "call_read ops st = (s1, buffer, st1)"
    by (cases "call_read ops st")
  have p1: "main_pass st st1" by (rule main_pass_call_read [OF r])
  show ?thesis
  proof (cases "s1 = int TARBLKSZ")
    case True
    with assms r have "loop_body ops sys buffer st1 = r" by (simp add: iteration_def)
    from main_pass_loop_body [OF this assms(2)] p1 show ?thesis
      by (blast intro: main_pass_trans)
  next
    case False
    with assms r have "st' = st1" by (auto simp: iteration_def)
    with p1 show ?thesis by simp
  qed
qed

lemma main_pass_main_loop:
  "main_loop ops sys st = Some (Break status st') \<Longrightarrow> main_pass st st'"
proof -
  assume run: "main_loop ops sys st = Some (Break status st')"
  have "Break status st' = Break status st' \<longrightarrow> main_pass st st'"
  proof (rule main_loop_cases
      [where P = "\<lambda>st r. r = Break status st' \<longrightarrow> main_pass st st'", OF run])
    fix st
    show "iteration ops sys st = Break status st' \<longrightarrow> main_pass st st'"
      by (auto intro: main_pass_iteration)
  next
    fix st st1 r
    assume i: "iteration ops sys st = Continue st1"
       and IH: "r = Break status st' \<longrightarrow> main_pass st1 st'"
    from main_pass_iteration [OF i] have "main_pass st st1" by simp
    with IH show "r = Break status st' \<longrightarrow> main_pass st st'"
      by (blast intro: main_pass_trans)
  qed
  then show ?thesis by simp
qed

subsection \<open>The drain phase\<close>

lemma drain_failed: "status \<noteq> 0 \<Longrightarrow> drain ops q status st = (status, st)"
  by (induction q) simp_all

lemma drain_calls:
  "drain ops q status st = (status', st') \<Longrightarrow>
     \<exists>k \<le> length q. calls st' = calls st @ map Ev_symlink (take k q) \<and>
        (status \<noteq> 0 \<longrightarrow> k = 0) \<and> (status' = 0 \<longrightarrow> k = length q)"
proof (induction q arbitrary: status st)
  case Nil
  then show ?case by simp
next
  case (Cons n ns)
  show ?case
  proof (cases "status = 0")
    case False
    with Cons.prems drain_failed [OF False, of ops "n # ns" st]
    have "st' = st" "status' = status" by simp_all
    with False show ?thesis by (intro exI [of _ 0]) simp
  next
    case True
    obtain s1 st1 where c: "call_op (symlink ops) Ev_symlink n st = (s1, st1)"
      by (cases "call_op (symlink ops) Ev_symlink n st")
    then have c1: "calls st1 = calls st @ [Ev_symlink n]"
      by (auto simp: call_op_def split: prod.splits)
    from True c Cons.prems have "drain ops ns s1 st1 = (status', st')" by simp
    from Cons.IH [OF this] obtain k where k: "k \<le> length ns"
      "calls st' = calls st1 @ map Ev_symlink (take k ns)"
      "s1 \<noteq> 0 \<longrightarrow> k = 0" "status' = 0 \<longrightarrow> k = length ns"
      by blast
    show ?thesis
      by (rule exI [of _ "Suc k"]) (use k c1 True in simp)
  qed
qed

lemma finish_calls:
  "finish ops status st = Returned r c tr \<Longrightarrow>
     \<exists>k \<le> length (symlink_list st).
        tr = calls st @ map Ev_symlink (take k (symlink_list st)) \<and>
        (status \<noteq> 0 \<longrightarrow> k = 0) \<and> (r = 0 \<longrightarrow> k = length (symlink_list st))"
proof -
  assume f: "finish ops status st = Returned r c tr"
  obtain s1 st1 where d: "drain ops (symlink_list st) status st = (s1, st1)"
    by (cases "drain ops (symlink_list st) status st")
  with f have r: "r = (if s1 > 0 then - 1 else s1)" and tr: "tr = calls st1"
    by (simp_all add: finish_def)
  from r have "r = 0 \<longrightarrow> s1 = 0" by (simp split: if_splits)
  with drain_calls [OF d] tr show ?thesis by auto
qed

lemma finish_failed:
  "status \<noteq> 0 \<Longrightarrow>
     finish ops status st = Returned (if status > 0 then - 1 else status) (ctx st) (calls st)"
  by (simp add: finish_def drain_failed)

lemma finish_nonpositive: "finish ops status st = Returned r c tr \<Longrightarrow> r \<le> 0"
  by (auto simp: finish_def split: prod.splits if_splits)

lemma run_from_cases:
  assumes "run_from ops sys st = Some (Returned r c tr)"
  obtains status st' where "main_loop ops sys st = Some (Break status st')"
    and "finish ops status st' = Returned r c tr"
  using assms by (auto simp: run_from_def split: option.splits flow.splits)

subsection \<open>Strings in buffers\<close>

lemma strlen_SomeD:
  assumes "strlen buf = Some n"
  shows "\<exists>rest. buf = c_str buf @ NUL # rest" and "length (c_str buf) = n"
    and "NUL \<notin> set (c_str buf)"
proof -
  from assms have in_buf: "NUL \<in> set buf" and n: "length (c_str buf) = n"
    by (simp_all add: strlen_def split: if_splits)
  show "length (c_str buf) = n" by (rule n)
  show "NUL \<notin> set (c_str buf)"
    unfolding c_str_def by (rule takeWhile_not_NUL)
  from in_buf have "dropWhile (\<lambda>c. c \<noteq> NUL) buf \<noteq> []"
    by (auto simp: dropWhile_eq_Nil_conv)
  then obtain c rest where d: "dropWhile (\<lambda>c. c \<noteq> NUL) buf = c # rest"
    by (cases "dropWhile (\<lambda>c. c \<noteq> NUL) buf") auto
  from hd_dropWhile [of "\<lambda>c. c \<noteq> NUL" buf] d have "c = NUL" by simp
  with d have "buf = c_str buf @ NUL # rest"
    using takeWhile_dropWhile_id [of "\<lambda>c. c \<noteq> NUL" buf] by (simp add: c_str_def)
  then show "\<exists>rest. buf = c_str buf @ NUL # rest" ..
qed

lemma strlen_terminated: "NUL \<notin> set s \<Longrightarrow> strlen (s @ NUL # rest) = Some (length s)"
  by (simp add: strlen_def c_str_no_NUL)

lemma c_str_Nil_iff: "c_str buf = [] \<longleftrightarrow> (buf = [] \<or> hd buf = NUL)"
  by (cases buf) (simp_all add: c_str_def)

lemma last_of_string:
  assumes "strlen buf = Some n" "0 < n"
  shows "buf ! (n - 1) = last (c_str buf)"
proof -
  from strlen_SomeD [OF assms(1)] obtain rest where
    b: "buf = c_str buf @ NUL # rest" and n: "length (c_str buf) = n" by blast
  from assms(2) n have ne: "c_str buf \<noteq> []" by auto
  have "buf ! (n - 1) = (c_str buf @ NUL # rest) ! (n - 1)" using b by simp
  also have "\<dots> = c_str buf ! (n - 1)" using n assms(2) by (simp add: nth_append)
  also have "\<dots> = last (c_str buf)" using ne n by (simp add: last_conv_nth)
  finally show ?thesis .
qed

lemma update_last: "xs \<noteq> [] \<Longrightarrow> xs[length xs - 1 := v] = butlast xs @ [v]"
  by (induction xs rule: rev_induct) (simp_all add: list_update_append)

lemma strip_last_of_string:
  assumes "strlen buf = Some n" "0 < n"
  shows "c_str (buf[n - 1 := NUL]) = butlast (c_str buf)"
proof -
  from strlen_SomeD [OF assms(1)] obtain rest where
    b: "buf = c_str buf @ NUL # rest" and n: "length (c_str buf) = n"
    and no: "NUL \<notin> set (c_str buf)" by blast
  from assms(2) n have ne: "c_str buf \<noteq> []" by auto
  then have s: "c_str buf = butlast (c_str buf) @ [last (c_str buf)]" by simp
  have "buf[n - 1 := NUL] = (c_str buf @ NUL # rest)[n - 1 := NUL]" using b by simp
  also have "\<dots> = (c_str buf)[n - 1 := NUL] @ NUL # rest"
    using n assms(2) by (simp add: list_update_append)
  also have "(c_str buf)[n - 1 := NUL] = butlast (c_str buf) @ [NUL]"
    using update_last [OF ne, of NUL] n by simp
  finally have "buf[n - 1 := NUL] = butlast (c_str buf) @ NUL # NUL # rest" by simp
  moreover have "NUL \<notin> set (butlast (c_str buf))"
    using no by (auto dest: in_set_butlastD)
  ultimately show ?thesis by (simp add: c_str_no_NUL)
qed

lemma first_of_string:
  assumes "strlen buf = Some n" "0 < n"
  shows "\<exists>c cs. buf = c # cs \<and> c \<noteq> NUL"
proof -
  from strlen_SomeD [OF assms(1)] obtain rest where
    b: "buf = c_str buf @ NUL # rest" and n: "length (c_str buf) = n"
    and no: "NUL \<notin> set (c_str buf)" by blast
  from assms(2) n obtain c cs where c: "c_str buf = c # cs" by (cases "c_str buf") auto
  with no have "c \<noteq> NUL" by auto
  moreover from b c have "buf = c # (cs @ NUL # rest)" by simp
  ultimately show ?thesis by blast
qed

lemma Name_Decode_terminated:
  "\<exists>s. Name (snd (DecodeTarHeader sys block)) = s @ [NUL] \<and> NUL \<notin> set s"
proof (cases "header_format block = tar_format_ustar \<and> block ! off_Prefix \<noteq> NUL")
  case True
  have "NUL \<notin> set (c_str (StoC (drop off_Prefix block) 155) @ [SLASH]
                     @ c_str (StoC (drop off_Name block) 100))"
    using takeWhile_not_NUL by (auto simp: c_str_def SLASH_def NUL_def)
  with True show ?thesis
    by (simp add: Name_Decode get_prefix_name_def)
next
  case False
  have "NUL \<notin> set (take (strnlen (drop off_Name block) 100) (drop off_Name block))"
    unfolding strnlen_def take_length_takeWhile_take by (rule takeWhile_not_NUL)
  with False show ?thesis
    by (auto simp: Name_Decode StoC_def)
qed

subsection \<open>One pass of the loop\<close>

lemma iteration_block:
  "call_read ops st = (int TARBLKSZ, buffer, st1) \<Longrightarrow>
     iteration ops sys st = loop_body ops sys buffer st1"
  by (simp add: iteration_def)

lemma iteration_short:
  "call_read ops st = (status, buffer, st1) \<Longrightarrow> status \<noteq> int TARBLKSZ \<Longrightarrow>
     iteration ops sys st = Break status st1"
  by (simp add: iteration_def)

lemma loop_body_invalid:
  assumes "DecodeTarHeader sys buffer = (False, h)"
  shows "loop_body ops sys buffer st = (if c_str (Name h) = [] then Break 0 st else Break (- 1) st)"
proof -
  from Name_Decode_terminated [of sys buffer] assms obtain s where
    s: "Name h = s @ [NUL]" by auto
  then obtain c cs where c: "Name h = c # cs" by (cases s) auto
  then have "c_str (Name h) = [] \<longleftrightarrow> c = NUL" by (simp add: c_str_def)
  with assms c show ?thesis by (simp add: loop_body_def)
qed

lemma loop_body_dispatch:
  assumes "DecodeTarHeader sys buffer = (True, h0)" "apply_pending h0 st = (h, st1)"
    and "strlen (Name h) = Some n" "0 < n"
  shows "loop_body ops sys buffer st =
           (case dispatch ops sys h n st1 of
              Undefined_read \<Rightarrow> Fault
            | No_return \<Rightarrow> Fatal
            | Done (status, st2) \<Rightarrow> if status \<noteq> 0 then Break status st2 else Continue st2)"
proof -
  from first_of_string [OF assms(3,4)] obtain c cs where "Name h = c # cs" "c \<noteq> NUL" by blast
  with assms show ?thesis by (simp add: loop_body_def)
qed



lemma call_op_calls:
  "call_op f ev h st = (status, st') \<Longrightarrow>
     f (ctx st) h = (status, ctx st') \<and> calls st' = calls st @ [ev h] \<and>
     next_long_name st' = next_long_name st \<and> next_long_link st' = next_long_link st \<and>
     symlink_list st' = symlink_list st"
  by (auto simp: call_op_def split: prod.splits)

lemma dispatch_operation:
  assumes "Type h \<in> {NormalFile0, NormalFile1, Directory, HardLink, CharacterDevice, BlockDevice, FIFO}"
    and "dispatch ops sys h n st = Done (status, st')"
  shows "\<exists>h'. calls st' = calls st @ [Ev_extract_file h'] \<and> extract_file ops (ctx st) h' = (status, ctx st')
           \<or> calls st' = calls st @ [Ev_mkdir h'] \<and> mkdir ops (ctx st) h' = (status, ctx st')
           \<or> calls st' = calls st @ [Ev_link h'] \<and> link ops (ctx st) h' = (status, ctx st')
           \<or> calls st' = calls st @ [Ev_mknod h'] \<and> mknod ops (ctx st) h' = (status, ctx st')"
proof -
  have types: "NormalFile0 \<noteq> GNU_LONGLINK" "NormalFile0 \<noteq> GNU_LONGNAME" "NormalFile0 \<noteq> SymbolicLink"
    "NormalFile1 \<noteq> SymbolicLink" "Directory \<noteq> SymbolicLink" "HardLink \<noteq> SymbolicLink"
    "CharacterDevice \<noteq> SymbolicLink" "BlockDevice \<noteq> SymbolicLink" "FIFO \<noteq> SymbolicLink"
    by (simp_all add: NormalFile0_def NormalFile1_def Directory_def HardLink_def
          CharacterDevice_def BlockDevice_def FIFO_def SymbolicLink_def GNU_LONGLINK_def
          GNU_LONGNAME_def)
  from assms consider
      (ex) "call_op (extract_file ops) Ev_extract_file h st = (status, st')"
    | (mk) "do_mkdir ops h n st = (status, st')"
    | (ln) "call_op (link ops) Ev_link h st = (status, st')"
    | (nod) "call_op (mknod ops) Ev_mknod h st = (status, st')"
    using types by (auto simp: dispatch_def split: if_splits)
  then show ?thesis
  proof cases
    case ex
    from call_op_calls [OF this] show ?thesis by blast
  next
    case mk
    then obtain h' where "call_op (mkdir ops) Ev_mkdir h' st = (status, st')"
      by (auto simp: do_mkdir_def Let_def)
    from call_op_calls [OF this] show ?thesis by blast
  next
    case ln
    from call_op_calls [OF this] show ?thesis by blast
  next
    case nod
    from call_op_calls [OF this] show ?thesis by blast
  qed
qed

lemma drain_succeeds:
  "drain ops q 0 st = (s, st') \<Longrightarrow> (s = 0) = symlinks_succeed ops q (ctx st)"
proof (induction q arbitrary: st)
  case Nil
  then show ?case by simp
next
  case (Cons n ns)
  obtain s1 st1 where c: "call_op (symlink ops) Ev_symlink n st = (s1, st1)"
    by (cases "call_op (symlink ops) Ev_symlink n st")
  from call_op_calls [OF c] have c0: "symlink ops (ctx st) n = (s1, ctx st1)" by simp
  from c Cons.prems have d: "drain ops ns s1 st1 = (s, st')" by simp
  show ?case
  proof (cases "s1 = 0")
    case True
    with d have "drain ops ns 0 st1 = (s, st')" by simp
    from Cons.IH [OF this] c0 True show ?thesis by simp
  next
    case False
    from drain_failed [OF False, of ops ns st1] d have "s = s1" by simp
    with False c0 show ?thesis by simp
  qed
qed

lemma finish_succeeds:
  assumes "finish ops 0 st = Returned r c tr"
  shows "(r = 0) = symlinks_succeed ops (symlink_list st) (ctx st)"
proof -
  obtain s st' where d: "drain ops (symlink_list st) 0 st = (s, st')"
    by (cases "drain ops (symlink_list st) 0 st")
  with assms have "r = (if 0 < s then - 1 else s)" by (simp add: finish_def)
  then have "(r = 0) = (s = 0)" by auto
  with drain_succeeds [OF d] show ?thesis by simp
qed

lemma finish_no_symlinks:
  "symlink_list st = [] \<Longrightarrow>
     finish ops status st = Returned (if 0 < status then - 1 else status) (ctx st) (calls st)"
  by (simp add: finish_def)

lemma Decode_zero_block:
  "DecodeTarHeader sys (replicate TARBLKSZ NUL)
     = (False, \<lparr> format = tar_format_old, Type = NormalFile0, Name = [NUL], LinkName = [NUL],
                 Size = 0, ModTime = 0, Mode = 0, UserID = 0, GroupID = 0, Device = 0 \<rparr>)"
  by code_simp

subsection \<open>Long names and long links\<close>



lemma do_long_first_read_short:
  assumes "0 < sint (ucast (Size h) :: 32 word)"
    and "call_read ops st = (status, buffer, st1)" and "status \<noteq> int TARBLKSZ"
    and "m_malloc_returns sys (Size h)"
  shows "do_long ops sys h st =
           Done ((if 0 < status then - 1 else if status < 0 then status else 0),
                 if Type h = GNU_LONGNAME then st1\<lparr>next_long_name := Some []\<rparr>
                 else st1\<lparr>next_long_link := Some []\<rparr>)"
proof -
  from assms have "read_long ops (sint (ucast (Size h) :: 32 word)) (int TARBLKSZ) [] st
                     = ((if 0 < status then - 1 else status), [], st1)"
    by (subst read_long.simps) simp
  with assms(4) show ?thesis
    by (simp add: do_long_def)
qed

lemma dispatch_long:
  "Type h = GNU_LONGNAME \<or> Type h = GNU_LONGLINK \<Longrightarrow>
     dispatch ops sys h n st = do_long ops sys h st"
  by (auto simp: dispatch_def NormalFile0_def NormalFile1_def Directory_def HardLink_def
        CharacterDevice_def BlockDevice_def FIFO_def SymbolicLink_def GNU_LONGLINK_def
        GNU_LONGNAME_def)



lemma apply_pending_marker:
  "Type h = GNU_LONGNAME \<or> Type h = GNU_LONGLINK \<Longrightarrow> apply_pending h st = (h, st)"
  by (auto simp: apply_pending_def)







text \<open>
  A marker whose buffer the allocation does not give ends the run in \<^verbatim>\<open>m_malloc\<close>. Such is
  every marker whose size field has overflowed \<open>OtoL\<close> to a negative value, as the field
  \<^verbatim>\<open>20000000000\<close> does.
\<close>

lemma marker_no_memory:
  assumes "call_read ops st = (int TARBLKSZ, mbuf, sta)"
    and "DecodeTarHeader sys mbuf = (True, hm)"
    and "Type hm = GNU_LONGNAME \<or> Type hm = GNU_LONGLINK"
    and "c_str (Name hm) \<noteq> []"
    and "\<not> m_malloc_returns sys (Size hm)"
  shows "iteration ops sys st = Fatal" and "run_from ops sys st = Some Fatal_error"
proof -
  from Name_Decode_terminated [of sys mbuf] assms(2) obtain s where
    s: "Name hm = s @ [NUL]" "NUL \<notin> set s" by auto
  then have len: "strlen (Name hm) = Some (length s)" by (simp add: strlen_terminated)
  from s assms(4) have pos: "0 < length s" by (simp add: c_str_no_NUL)
  have ap: "apply_pending hm sta = (hm, sta)"
    by (rule apply_pending_marker [OF assms(3)])
  have "dispatch ops sys hm (length s) sta = do_long ops sys hm sta"
    by (rule dispatch_long [OF assms(3)])
  also from assms(5) have "\<dots> = No_return" by (simp add: do_long_def)
  finally have "loop_body ops sys mbuf sta = Fatal"
    using loop_body_dispatch [OF assms(2) ap len pos, of ops] by simp
  with iteration_block [OF assms(1), of sys] show "iteration ops sys st = Fatal" by simp
  then show "run_from ops sys st = Some Fatal_error" by (rule run_from_Fatal)
qed

lemma marker_size_overflow:
  "Size (snd (DecodeTarHeader nosys
       (mk_header [0x4B] GNU_LONGLINK
          [0x32, 0x30, 0x30, 0x30, 0x30, 0x30, 0x30, 0x30, 0x30, 0x30, 0x30]
          [0x31, 0x36, 0x35, 0x30] []))) = 0xFFFFFFFF80000000 \<and>
   TarExtractor (stream_ops 0 0) nosys
       [mk_header [0x4B] GNU_LONGLINK
          [0x32, 0x30, 0x30, 0x30, 0x30, 0x30, 0x30, 0x30, 0x30, 0x30, 0x30]
          [0x31, 0x36, 0x35, 0x30] [], payload_ab, file_a]
     = Some Fatal_error"
  by code_simp

section \<open>The claims\<close>

text \<open>
  C1. Whenever \<open>TarExtractor\<close> returns, its actions are those of the main pass, none of
  which is a symlink-creation call, followed by symlink-creation calls only; these are
  made for the first \<open>k\<close> entries of the list of deferred links, in the order in which
  the main pass deferred them (the archive order). No call is made when the main pass
  failed, and every deferred link has been created when the result is success.
\<close>

theorem symlinks_after_main_pass_in_order:
  assumes "TarExtractor ops sys c = Some (Returned r c' tr)"
  shows "\<exists>status st k.
           main_loop ops sys (initial_state c) = Some (Break status st) \<and>
           list_all (\<lambda>e. \<not> is_symlink_call e) (calls st) \<and>
           symlink_list st = deferred (calls st) \<and>
           tr = calls st @ map Ev_symlink (take k (symlink_list st)) \<and>
           (status \<noteq> 0 \<longrightarrow> k = 0) \<and>
           (r = 0 \<longrightarrow> k = length (symlink_list st))"
proof -
  from assms have "run_from ops sys (initial_state c) = Some (Returned r c' tr)"
    by (simp add: TarExtractor_def)
  then obtain status st where
    loop: "main_loop ops sys (initial_state c) = Some (Break status st)" and
    fin: "finish ops status st = Returned r c' tr"
    by (rule run_from_cases)
  from main_pass_main_loop [OF loop]
  have inv: "list_all (\<lambda>e. \<not> is_symlink_call e) (calls st)" "symlink_list st = deferred (calls st)"
    by (auto simp: main_pass_def initial_state_def)
  from finish_calls [OF fin] obtain k where
    "tr = calls st @ map Ev_symlink (take k (symlink_list st))"
    "status \<noteq> 0 \<longrightarrow> k = 0" "r = 0 \<longrightarrow> k = length (symlink_list st)"
    by blast
  with loop inv show ?thesis by blast
qed

theorem symlinks_after_main_pass_in_order_witness:
  "TarExtractor (stream_ops 0 0) nosys [dir_d, symlink_l, file_a, symlink_m, zero_block]
     = Some (Returned 0 []
         [Ev_read 512, Ev_mkdir (entry Directory [0x64, 0, 0] [0]),
          Ev_read 512, Ev_defer (entry SymbolicLink [0x6C, 0] [0x74, 0]),
          Ev_read 512, Ev_extract_file (entry NormalFile1 [0x61, 0] [0]),
          Ev_read 512, Ev_defer (entry SymbolicLink [0x6D, 0] [0x74, 0]),
          Ev_read 512,
          Ev_symlink (entry SymbolicLink [0x6C, 0] [0x74, 0]),
          Ev_symlink (entry SymbolicLink [0x6D, 0] [0x74, 0])])
   \<and> (\<exists>status st k.
           main_loop (stream_ops 0 0) nosys
             (initial_state [dir_d, symlink_l, file_a, symlink_m, zero_block])
             = Some (Break status st) \<and>
           list_all (\<lambda>e. \<not> is_symlink_call e) (calls st) \<and>
           symlink_list st = deferred (calls st) \<and>
           [Ev_read 512, Ev_mkdir (entry Directory [0x64, 0, 0] [0]),
            Ev_read 512, Ev_defer (entry SymbolicLink [0x6C, 0] [0x74, 0]),
            Ev_read 512, Ev_extract_file (entry NormalFile1 [0x61, 0] [0]),
            Ev_read 512, Ev_defer (entry SymbolicLink [0x6D, 0] [0x74, 0]),
            Ev_read 512,
            Ev_symlink (entry SymbolicLink [0x6C, 0] [0x74, 0]),
            Ev_symlink (entry SymbolicLink [0x6D, 0] [0x74, 0])]
             = calls st @ map Ev_symlink (take k (symlink_list st)) \<and>
           k = length (symlink_list st))"
proof -
  have run: "TarExtractor (stream_ops 0 0) nosys [dir_d, symlink_l, file_a, symlink_m, zero_block]
     = Some (Returned 0 []
         [Ev_read 512, Ev_mkdir (entry Directory [0x64, 0, 0] [0]),
          Ev_read 512, Ev_defer (entry SymbolicLink [0x6C, 0] [0x74, 0]),
          Ev_read 512, Ev_extract_file (entry NormalFile1 [0x61, 0] [0]),
          Ev_read 512, Ev_defer (entry SymbolicLink [0x6D, 0] [0x74, 0]),
          Ev_read 512,
          Ev_symlink (entry SymbolicLink [0x6C, 0] [0x74, 0]),
          Ev_symlink (entry SymbolicLink [0x6D, 0] [0x74, 0])])"
    by code_simp
  from symlinks_after_main_pass_in_order [OF run] run show ?thesis
    by (intro conjI) auto
qed


text \<open>
  C2. For every block of 512 bytes the decoder reports the checksum as valid if and only
  if the octal value of the 8-byte checksum field equals the sum of the 512 bytes, read
  as unsigned values, with each byte of the checksum field replaced by a space.
\<close>

theorem checksum_valid_iff:
  assumes "length block = TARBLKSZ"
  shows "fst (DecodeTarHeader sys block) \<longleftrightarrow>
           octal_value (take 8 (drop TarChecksumOffset block))
             = int (sum_list (map unat (take TarChecksumOffset block @ replicate 8 SPACE
                                          @ drop (TarChecksumOffset + 8) block)))"
  unfolding fst_Decode Decode_checksum_field [OF assms] header_sum_blanked [OF assms]
  by (rule eq_commute)

theorem checksum_valid_iff_witness:
  "length file_a = TARBLKSZ \<and> fst (DecodeTarHeader nosys file_a) \<and>
   octal_value (take 8 (drop TarChecksumOffset file_a)) = 401 \<and>
   int (sum_list (map unat (take TarChecksumOffset file_a @ replicate 8 SPACE
                              @ drop (TarChecksumOffset + 8) file_a))) = 401"
proof -
  have len: "length file_a = TARBLKSZ" by code_simp
  have valid: "fst (DecodeTarHeader nosys file_a)" by code_simp
  have val: "octal_value (take 8 (drop TarChecksumOffset file_a)) = 401" by code_simp
  from checksum_valid_iff [OF len, of nosys] valid val len show ?thesis by simp
qed

text \<open>
  C3. A block has been read whose checksum does not validate. If the decoded name is
  empty (as it is for a block of 512 zero bytes), the driver stops reading: the main
  loop ends at once with status zero, the clean end of the archive, and the only calls
  that follow are symlink-creation calls on deferred links; the value returned is zero
  exactly when every one of these calls succeeds, and then all of them are made. If the
  decoded name is not empty, the main loop ends with \<open>- 1\<close>, and \<open>TarExtractor\<close> returns
  \<open>- 1\<close> and makes no further call.
\<close>

theorem checksum_failure_handling:
  assumes "passes ops sys k (initial_state c) = Some st"
    and "call_read ops st = (int TARBLKSZ, buffer, st1)"
    and "DecodeTarHeader sys buffer = (False, h)"
  shows "(c_str (Name h) = [] \<longrightarrow>
            main_loop ops sys st = Some (Break 0 st1) \<and>
            TarExtractor ops sys c = Some (finish ops 0 st1) \<and>
            (\<exists>r c' j. TarExtractor ops sys c
                        = Some (Returned r c'
                                  (calls st1 @ map Ev_symlink (take j (symlink_list st1)))) \<and>
                      (r = 0) = symlinks_succeed ops (symlink_list st1) (ctx st1) \<and>
                      (r = 0 \<longrightarrow> j = length (symlink_list st1))))
       \<and> (c_str (Name h) \<noteq> [] \<longrightarrow>
            main_loop ops sys st = Some (Break (- 1) st1) \<and>
            TarExtractor ops sys c = Some (Returned (- 1) (ctx st1) (calls st1)))
       \<and> \<not> fst (DecodeTarHeader sys (replicate TARBLKSZ NUL))
       \<and> c_str (Name (snd (DecodeTarHeader sys (replicate TARBLKSZ NUL)))) = []"
proof (intro conjI impI)
  note it = iteration_block [OF assms(2), of sys] loop_body_invalid [OF assms(3), of ops st1]
  note top = TarExtractor_passes [OF assms(1)]
  {
    assume e: "c_str (Name h) = []"
    with it have i: "iteration ops sys st = Break 0 st1" by simp
    from main_loop_Break [OF i] show "main_loop ops sys st = Some (Break 0 st1)" .
    from run_from_Break [OF i] top
    show r: "TarExtractor ops sys c = Some (finish ops 0 st1)" by simp
    obtain r c' tr where f: "finish ops 0 st1 = Returned r c' tr"
      by (cases "drain ops (symlink_list st1) 0 st1") (simp add: finish_def)
    from finish_calls [OF f] obtain j where
      "tr = calls st1 @ map Ev_symlink (take j (symlink_list st1))"
      "r = 0 \<longrightarrow> j = length (symlink_list st1)" by blast
    with r f finish_succeeds [OF f]
    show "\<exists>r c' j. TarExtractor ops sys c
                        = Some (Returned r c'
                                  (calls st1 @ map Ev_symlink (take j (symlink_list st1)))) \<and>
                      (r = 0) = symlinks_succeed ops (symlink_list st1) (ctx st1) \<and>
                      (r = 0 \<longrightarrow> j = length (symlink_list st1))"
      by auto
  }
  {
    assume "c_str (Name h) \<noteq> []"
    with it have i: "iteration ops sys st = Break (- 1) st1" by simp
    from main_loop_Break [OF i] show "main_loop ops sys st = Some (Break (- 1) st1)" .
    from run_from_Break [OF i] finish_failed [of "- 1" ops st1] top
    show "TarExtractor ops sys c = Some (Returned (- 1) (ctx st1) (calls st1))" by simp
  }
  show "\<not> fst (DecodeTarHeader sys (replicate TARBLKSZ NUL))"
    by (simp add: Decode_zero_block)
  show "c_str (Name (snd (DecodeTarHeader sys (replicate TARBLKSZ NUL)))) = []"
    by (simp add: Decode_zero_block c_str_def)
qed

theorem checksum_failure_handling_witness:
  "passes (stream_ops 0 0) nosys 1 (initial_state [symlink_l, zero_block])
     = Some ((state_of [zero_block] [Ev_read 512, Ev_defer (entry SymbolicLink [0x6C, 0] [0x74, 0])])
               \<lparr>symlink_list := [entry SymbolicLink [0x6C, 0] [0x74, 0]]\<rparr>) \<and>
   call_read (stream_ops 0 0)
       ((state_of [zero_block] [Ev_read 512, Ev_defer (entry SymbolicLink [0x6C, 0] [0x74, 0])])
          \<lparr>symlink_list := [entry SymbolicLink [0x6C, 0] [0x74, 0]]\<rparr>)
     = (int TARBLKSZ, zero_block,
        (state_of no_blocks
           [Ev_read 512, Ev_defer (entry SymbolicLink [0x6C, 0] [0x74, 0]), Ev_read 512])
          \<lparr>symlink_list := [entry SymbolicLink [0x6C, 0] [0x74, 0]]\<rparr>) \<and>
   DecodeTarHeader nosys zero_block = (False, entry NormalFile0 [0] [0]) \<and>
   c_str (Name (entry NormalFile0 [0] [0])) = [] \<and>
   symlinks_succeed (stream_ops 0 0) [entry SymbolicLink [0x6C, 0] [0x74, 0]] no_blocks \<and>
   (\<exists>c'. TarExtractor (stream_ops 0 0) nosys [symlink_l, zero_block]
       = Some (Returned 0 c'
                 [Ev_read 512, Ev_defer (entry SymbolicLink [0x6C, 0] [0x74, 0]), Ev_read 512,
                  Ev_symlink (entry SymbolicLink [0x6C, 0] [0x74, 0])])) \<and>
   passes (stream_ops 0 0) nosys 1 (initial_state [file_a, file_a_corrupt])
     = Some (state_of [file_a_corrupt]
               [Ev_read 512, Ev_extract_file (entry NormalFile1 [0x61, 0] [0])]) \<and>
   call_read (stream_ops 0 0)
       (state_of [file_a_corrupt] [Ev_read 512, Ev_extract_file (entry NormalFile1 [0x61, 0] [0])])
     = (int TARBLKSZ, file_a_corrupt,
        state_of no_blocks
          [Ev_read 512, Ev_extract_file (entry NormalFile1 [0x61, 0] [0]), Ev_read 512]) \<and>
   DecodeTarHeader nosys file_a_corrupt = (False, entry NormalFile1 [0x61, 0] [0]) \<and>
   c_str (Name (entry NormalFile1 [0x61, 0] [0])) \<noteq> [] \<and>
   TarExtractor (stream_ops 0 0) nosys [file_a, file_a_corrupt]
     = Some (Returned (- 1) no_blocks
               [Ev_read 512, Ev_extract_file (entry NormalFile1 [0x61, 0] [0]), Ev_read 512])"
proof -
  let ?l = "entry SymbolicLink [0x6C, 0] [0x74, 0]"
  let ?a = "entry NormalFile1 [0x61, 0] [0]"
  let ?st = "(state_of [zero_block] [Ev_read 512, Ev_defer ?l])\<lparr>symlink_list := [?l]\<rparr>"
  let ?st1 = "(state_of no_blocks [Ev_read 512, Ev_defer ?l, Ev_read 512])\<lparr>symlink_list := [?l]\<rparr>"
  let ?su = "state_of [file_a_corrupt] [Ev_read 512, Ev_extract_file ?a]"
  let ?su1 = "state_of no_blocks [Ev_read 512, Ev_extract_file ?a, Ev_read 512]"
  have k1: "passes (stream_ops 0 0) nosys 1 (initial_state [symlink_l, zero_block]) = Some ?st"
    by code_simp
  have r1: "call_read (stream_ops 0 0) ?st = (int TARBLKSZ, zero_block, ?st1)" by code_simp
  have d1: "DecodeTarHeader nosys zero_block = (False, entry NormalFile0 [0] [0])" by code_simp
  have e1: "c_str (Name (entry NormalFile0 [0] [0])) = []" by code_simp
  have ok: "symlinks_succeed (stream_ops 0 0) [?l] no_blocks" by (simp add: stream_ops_def)
  have k2: "passes (stream_ops 0 0) nosys 1 (initial_state [file_a, file_a_corrupt]) = Some ?su"
    by code_simp
  have r2: "call_read (stream_ops 0 0) ?su = (int TARBLKSZ, file_a_corrupt, ?su1)" by code_simp
  have d2: "DecodeTarHeader nosys file_a_corrupt = (False, ?a)" by code_simp
  have e2: "c_str (Name ?a) \<noteq> []" by code_simp
  have s: "symlink_list ?st1 = [?l]" "ctx ?st1 = no_blocks"
    "calls ?st1 = [Ev_read 512, Ev_defer ?l, Ev_read 512]"
    "ctx ?su1 = no_blocks" "calls ?su1 = [Ev_read 512, Ev_extract_file ?a, Ev_read 512]"
    by (simp_all add: state_of_def)
  note A = checksum_failure_handling [OF k1 r1 d1, THEN conjunct1, THEN mp, OF e1,
      THEN conjunct2, THEN conjunct2]
  note B = checksum_failure_handling [OF k2 r2 d2, THEN conjunct2, THEN conjunct1, THEN mp, OF e2,
      THEN conjunct2]
  from A ok have f: "\<exists>c'. TarExtractor (stream_ops 0 0) nosys [symlink_l, zero_block]
       = Some (Returned 0 c' [Ev_read 512, Ev_defer ?l, Ev_read 512, Ev_symlink ?l])"
    unfolding s by auto
  from B have g: "TarExtractor (stream_ops 0 0) nosys [file_a, file_a_corrupt]
                    = Some (Returned (- 1) no_blocks [Ev_read 512, Ev_extract_file ?a, Ev_read 512])"
    unfolding s .
  from k1 r1 d1 e1 ok f k2 r2 d2 e2 g show ?thesis by (intro conjI) assumption+
qed




text \<open>
  C5. A read during a continuation sequence that returns between 1 and 511 bytes makes
  the marker case fail with \<open>- 1\<close>, and a negative status is passed on
  (\<open>do_long_first_read_short\<close>). A read that returns zero bytes does neither: the
  status is reset to zero and the main loop goes on. A long-name marker of size 5 at
  the end of the stream is accepted, and \<open>TarExtractor\<close> returns success.
\<close>

theorem long_name_eof_accepted:
  "DecodeTarHeader nosys (longname_marker 0x35 [0x37, 0x31, 0x35])
     = (True, (entry GNU_LONGNAME [0x4C, 0] [0])\<lparr>Size := 5\<rparr>) \<and>
   TarExtractor (stream_ops 0 0) nosys [longname_marker 0x35 [0x37, 0x31, 0x35]]
     = Some (Returned 0 [] [Ev_read 512, Ev_read 0, Ev_read 0])"
  by code_simp

text \<open>
  C6 (as amended). When an external operation called by the main pass returns a status
  other than zero, the call is the last action of the driver: no further block is
  read and no symlink-creation call is made. The result is that status when it is
  negative, and \<open>- 1\<close> when it is positive.
\<close>

theorem operation_failure_propagates:
  assumes "passes ops sys k (initial_state c) = Some st"
    and "call_read ops st = (int TARBLKSZ, buffer, st1)"
    and "DecodeTarHeader sys buffer = (True, h0)"
    and "apply_pending h0 st1 = (h, st2)"
    and "strlen (Name h) = Some n" and "0 < n"
    and "Type h \<in> {NormalFile0, NormalFile1, Directory, HardLink, CharacterDevice, BlockDevice, FIFO}"
    and "dispatch ops sys h n st2 = Done (status, st3)"
    and "status \<noteq> 0"
  shows "(\<exists>h'. calls st3 = calls st2 @ [Ev_extract_file h'] \<and> extract_file ops (ctx st2) h' = (status, ctx st3)
            \<or> calls st3 = calls st2 @ [Ev_mkdir h'] \<and> mkdir ops (ctx st2) h' = (status, ctx st3)
            \<or> calls st3 = calls st2 @ [Ev_link h'] \<and> link ops (ctx st2) h' = (status, ctx st3)
            \<or> calls st3 = calls st2 @ [Ev_mknod h'] \<and> mknod ops (ctx st2) h' = (status, ctx st3))
       \<and> TarExtractor ops sys c
           = Some (Returned (if 0 < status then - 1 else status) (ctx st3) (calls st3))"
proof
  show "\<exists>h'. calls st3 = calls st2 @ [Ev_extract_file h'] \<and> extract_file ops (ctx st2) h' = (status, ctx st3)
            \<or> calls st3 = calls st2 @ [Ev_mkdir h'] \<and> mkdir ops (ctx st2) h' = (status, ctx st3)
            \<or> calls st3 = calls st2 @ [Ev_link h'] \<and> link ops (ctx st2) h' = (status, ctx st3)
            \<or> calls st3 = calls st2 @ [Ev_mknod h'] \<and> mknod ops (ctx st2) h' = (status, ctx st3)"
    by (rule dispatch_operation [OF assms(7,8)])
  from loop_body_dispatch [OF assms(3,4,5,6), of ops] assms(8,9)
  have "loop_body ops sys buffer st1 = Break status st3" by simp
  with iteration_block [OF assms(2), of sys]
  have "iteration ops sys st = Break status st3" by simp
  from run_from_Break [OF this] finish_failed [OF assms(9), of ops st3]
    TarExtractor_passes [OF assms(1)]
  show "TarExtractor ops sys c
           = Some (Returned (if 0 < status then - 1 else status) (ctx st3) (calls st3))"
    by simp
qed

theorem operation_failure_propagates_witness:
  "passes (stream_ops 7 0) nosys 1 (initial_state [dir_d, file_a, file_a])
     = Some (state_of [file_a, file_a] [Ev_read 512, Ev_mkdir (entry Directory [0x64, 0, 0] [0])]) \<and>
   call_read (stream_ops 7 0)
       (state_of [file_a, file_a] [Ev_read 512, Ev_mkdir (entry Directory [0x64, 0, 0] [0])])
     = (int TARBLKSZ, file_a,
        state_of [file_a] [Ev_read 512, Ev_mkdir (entry Directory [0x64, 0, 0] [0]), Ev_read 512]) \<and>
   DecodeTarHeader nosys file_a = (True, entry NormalFile1 [0x61, 0] [0]) \<and>
   strlen (Name (entry NormalFile1 [0x61, 0] [0])) = Some 1 \<and>
   dispatch (stream_ops 7 0) nosys (entry NormalFile1 [0x61, 0] [0]) 1
       (state_of [file_a] [Ev_read 512, Ev_mkdir (entry Directory [0x64, 0, 0] [0]), Ev_read 512])
     = Done (7, state_of [file_a]
                  [Ev_read 512, Ev_mkdir (entry Directory [0x64, 0, 0] [0]), Ev_read 512,
                   Ev_extract_file (entry NormalFile1 [0x61, 0] [0])]) \<and>
   TarExtractor (stream_ops 7 0) nosys [dir_d, file_a, file_a]
     = Some (Returned (- 1) [file_a]
               [Ev_read 512, Ev_mkdir (entry Directory [0x64, 0, 0] [0]), Ev_read 512,
                Ev_extract_file (entry NormalFile1 [0x61, 0] [0])])"
proof -
  let ?h = "entry NormalFile1 [0x61, 0] [0]"
  let ?tr = "[Ev_read 512, Ev_mkdir (entry Directory [0x64, 0, 0] [0])]"
  have k: "passes (stream_ops 7 0) nosys 1 (initial_state [dir_d, file_a, file_a])
             = Some (state_of [file_a, file_a] ?tr)" by code_simp
  have r: "call_read (stream_ops 7 0) (state_of [file_a, file_a] ?tr)
             = (int TARBLKSZ, file_a, state_of [file_a] (?tr @ [Ev_read 512]))" by code_simp
  have d: "DecodeTarHeader nosys file_a = (True, ?h)" by code_simp
  have p: "apply_pending ?h (state_of [file_a] (?tr @ [Ev_read 512]))
             = (?h, state_of [file_a] (?tr @ [Ev_read 512]))"
    by code_simp
  have n: "strlen (Name ?h) = Some 1" by code_simp
  have t: "Type ?h \<in> {NormalFile0, NormalFile1, Directory, HardLink, CharacterDevice, BlockDevice, FIFO}"
    by (simp add: entry_def)
  have c: "dispatch (stream_ops 7 0) nosys ?h 1 (state_of [file_a] (?tr @ [Ev_read 512]))
             = Done (7, state_of [file_a] (?tr @ [Ev_read 512, Ev_extract_file ?h]))" by code_simp
  have s: "ctx (state_of [file_a] (?tr @ [Ev_read 512, Ev_extract_file ?h])) = [file_a]"
    "calls (state_of [file_a] (?tr @ [Ev_read 512, Ev_extract_file ?h]))
       = ?tr @ [Ev_read 512, Ev_extract_file ?h]"
    by (simp_all add: state_of_def)
  have nz: "(7 :: int) \<noteq> 0" by simp
  from operation_failure_propagates [OF k r d p n zero_less_one t c nz, THEN conjunct2]
  have "TarExtractor (stream_ops 7 0) nosys [dir_d, file_a, file_a]
     = Some (Returned (- 1) [file_a] (?tr @ [Ev_read 512, Ev_extract_file ?h]))"
    unfolding s by simp
  with k r d n c show ?thesis by (intro conjI) simp_all
qed

text \<open>
  C6 as stated fails for a positive status: file extraction returns 7 on the
  first entry, and \<open>TarExtractor\<close> returns \<open>- 1\<close>.
\<close>

theorem operation_failure_counterexample:
  "extract_file (stream_ops 7 0) [file_a] (entry NormalFile1 [0x61, 0] [0]) = (7, [file_a]) \<and>
   TarExtractor (stream_ops 7 0) nosys [file_a, file_a]
     = Some (Returned (- 1) [file_a]
               [Ev_read 512, Ev_extract_file (entry NormalFile1 [0x61, 0] [0])])"
  by code_simp

text \<open>
  C7. When the format decodes as ustar and the prefix field is not empty, the decoded name
  is the string of the prefix field, a slash, and the string of the name field.
  Consequently a block that carries a path split into a non-empty prefix and a name
  (neither holding a NUL, each within the width of its field) decodes to exactly
  prefix, slash, name; the example is a path of 150 characters.
\<close>

theorem ustar_prefix_name:
  "(header_format block = tar_format_ustar \<and> block ! off_Prefix \<noteq> NUL \<longrightarrow>
      c_str (Name (snd (DecodeTarHeader sys block)))
        = field_string block off_Prefix 155 @ [SLASH] @ field_string block off_Name 100)
   \<and>
   (ustar_split block prefix name \<and> prefix \<noteq> [] \<and> NUL \<notin> set prefix \<and> NUL \<notin> set name \<longrightarrow>
      c_str (Name (snd (DecodeTarHeader sys block))) = prefix @ [SLASH] @ name)"
proof (intro conjI impI)
  assume "header_format block = tar_format_ustar \<and> block ! off_Prefix \<noteq> NUL"
  then show "c_str (Name (snd (DecodeTarHeader sys block)))
        = field_string block off_Prefix 155 @ [SLASH] @ field_string block off_Name 100"
    by (simp add: Name_Decode c_str_get_prefix_name)
next
  assume a: "ustar_split block prefix name \<and> prefix \<noteq> [] \<and> NUL \<notin> set prefix \<and> NUL \<notin> set name"
  then have len: "length block = TARBLKSZ"
    and magic: "take 6 (drop off_MagicNumber block) = take 6 TAR_MAGIC_USTAR"
    and pre: "take 155 (drop off_Prefix block) = NUL_padded 155 prefix"
    and nam: "take 100 (drop off_Name block) = NUL_padded 100 name"
    by (simp_all add: ustar_split_def)
  from magic have fmt: "header_format block = tar_format_ustar"
    by (simp add: header_format_def TAR_MAGIC_USTAR_def TAR_MAGIC_GNU_def)
  from a have "hd prefix \<in> set prefix" by simp
  with a have "hd prefix \<noteq> NUL" by metis
  moreover have "block ! off_Prefix = hd prefix"
    by (rule first_of_padded [OF pre]) (use a len in \<open>simp_all add: TARBLKSZ_def off_Prefix_def\<close>)
  ultimately have nz: "block ! off_Prefix \<noteq> NUL" by simp
  have "field_string block off_Prefix 155 = prefix"
    by (rule field_string_padded [OF pre]) (use a in simp)
  moreover have "field_string block off_Name 100 = name"
    by (rule field_string_padded [OF nam]) (use a in simp)
  ultimately show "c_str (Name (snd (DecodeTarHeader sys block))) = prefix @ [SLASH] @ name"
    using fmt nz by (simp add: Name_Decode c_str_get_prefix_name)
qed

theorem ustar_prefix_name_witness:
  "ustar_split (ustar_header (replicate 99 0x70) (replicate 50 0x6E)) (replicate 99 0x70) (replicate 50 0x6E)
   \<and> header_format (ustar_header (replicate 99 0x70) (replicate 50 0x6E)) = tar_format_ustar
   \<and> ustar_header (replicate 99 0x70) (replicate 50 0x6E) ! off_Prefix \<noteq> NUL
   \<and> length (replicate 99 0x70 @ [SLASH] @ replicate 50 0x6E :: byte list) = 150
   \<and> c_str (Name (snd (DecodeTarHeader nosys (ustar_header (replicate 99 0x70) (replicate 50 0x6E)))))
        = replicate 99 0x70 @ [SLASH] @ replicate 50 0x6E
   \<and> field_string (ustar_header (replicate 99 0x70) (replicate 50 0x6E)) off_Prefix 155 = replicate 99 0x70
   \<and> field_string (ustar_header (replicate 99 0x70) (replicate 50 0x6E)) off_Name 100 = replicate 50 0x6E"
proof -
  let ?b = "ustar_header (replicate 99 0x70) (replicate 50 0x6E)"
  have split: "ustar_split ?b (replicate 99 0x70) (replicate 50 0x6E)" by code_simp
  have fmt: "header_format ?b = tar_format_ustar" by code_simp
  have nz: "?b ! off_Prefix \<noteq> NUL" by code_simp
  have p: "replicate 99 (0x70 :: byte) \<noteq> [] \<and> NUL \<notin> set (replicate 99 (0x70 :: byte))
           \<and> NUL \<notin> set (replicate 50 (0x6E :: byte))"
    by (simp add: NUL_def)
  have fp: "field_string ?b off_Prefix 155 = replicate 99 0x70" by code_simp
  have fn: "field_string ?b off_Name 100 = replicate 50 0x6E" by code_simp
  from ustar_prefix_name [of ?b nosys "replicate 99 0x70" "replicate 50 0x6E"] split fmt nz p fp fn
  show ?thesis by simp
qed

text \<open>
  C8. A checksum-valid entry of type \<open>NormalFile0\<close> or \<open>NormalFile1\<close> with a non-empty
  name (after the pending long name, if any, has replaced it). When the name ends in a
  slash, the driver calls the directory-creation operation, on the context as the pass
  found it and on the entry with that slash overwritten by the terminator, so that its
  name is the old one without the slash; the pass ends with the status and the context
  which that call returned, and the call is its one action: file extraction is not
  called. When the name does not end in a slash, the same holds of the file-extraction
  operation and the entry as it is.
\<close>

theorem regular_file_trailing_slash:
  assumes "DecodeTarHeader sys buffer = (True, h0)" and "apply_pending h0 st = (h, st1)"
    and "Type h = NormalFile0 \<or> Type h = NormalFile1"
    and "strlen (Name h) = Some n" and "0 < n"
  shows "(last (c_str (Name h)) = SLASH \<longrightarrow>
           (\<exists>h' status c'.
              h' = h\<lparr>Name := (Name h)[n - 1 := NUL]\<rparr> \<and>
              c_str (Name h') = butlast (c_str (Name h)) \<and>
              mkdir ops (ctx st) h' = (status, c') \<and>
              loop_body ops sys buffer st
                = (if status \<noteq> 0
                   then Break status (st1\<lparr>ctx := c', calls := calls st @ [Ev_mkdir h']\<rparr>)
                   else Continue (st1\<lparr>ctx := c', calls := calls st @ [Ev_mkdir h']\<rparr>))))
       \<and> (last (c_str (Name h)) \<noteq> SLASH \<longrightarrow>
           (\<exists>status c'.
              extract_file ops (ctx st) h = (status, c') \<and>
              loop_body ops sys buffer st
                = (if status \<noteq> 0
                   then Break status (st1\<lparr>ctx := c', calls := calls st @ [Ev_extract_file h]\<rparr>)
                   else Continue (st1\<lparr>ctx := c', calls := calls st @ [Ev_extract_file h]\<rparr>))))"
proof (intro conjI impI)
  note body = loop_body_dispatch [OF assms(1,2,4,5), of ops]
  note last = last_of_string [OF assms(4,5)]
  from apply_pending_calls [OF assms(2)]
  have c1: "calls st1 = calls st" and c2: "ctx st1 = ctx st" by simp_all
  {
    assume sl: "last (c_str (Name h)) = SLASH"
    let ?h' = "h\<lparr>Name := (Name h)[n - 1 := NUL]\<rparr>"
    obtain status c' where m: "mkdir ops (ctx st) ?h' = (status, c')"
      by (cases "mkdir ops (ctx st) ?h'")
    let ?st2 = "st1\<lparr>ctx := c', calls := calls st @ [Ev_mkdir ?h']\<rparr>"
    from m c1 c2 have c: "call_op (mkdir ops) Ev_mkdir ?h' st1 = (status, ?st2)"
      by (simp add: call_op_def)
    from sl last assms(3) c have d: "dispatch ops sys h n st1 = Done (status, ?st2)"
      by (auto simp: dispatch_def do_mkdir_def)
    have "c_str (Name ?h') = butlast (c_str (Name h))"
      using strip_last_of_string [OF assms(4,5)] by simp
    moreover from body d
    have "loop_body ops sys buffer st = (if status \<noteq> 0 then Break status ?st2 else Continue ?st2)"
      by simp
    ultimately show "\<exists>h' status c'.
              h' = h\<lparr>Name := (Name h)[n - 1 := NUL]\<rparr> \<and>
              c_str (Name h') = butlast (c_str (Name h)) \<and>
              mkdir ops (ctx st) h' = (status, c') \<and>
              loop_body ops sys buffer st
                = (if status \<noteq> 0
                   then Break status (st1\<lparr>ctx := c', calls := calls st @ [Ev_mkdir h']\<rparr>)
                   else Continue (st1\<lparr>ctx := c', calls := calls st @ [Ev_mkdir h']\<rparr>))"
      using m by blast
  }
  {
    assume nsl: "last (c_str (Name h)) \<noteq> SLASH"
    obtain status c' where m: "extract_file ops (ctx st) h = (status, c')"
      by (cases "extract_file ops (ctx st) h")
    let ?st2 = "st1\<lparr>ctx := c', calls := calls st @ [Ev_extract_file h]\<rparr>"
    from m c1 c2 have c: "call_op (extract_file ops) Ev_extract_file h st1 = (status, ?st2)"
      by (simp add: call_op_def)
    from nsl last assms(3) c have d: "dispatch ops sys h n st1 = Done (status, ?st2)"
      by (auto simp: dispatch_def)
    from body d
    have "loop_body ops sys buffer st = (if status \<noteq> 0 then Break status ?st2 else Continue ?st2)"
      by simp
    with m show "\<exists>status c'.
              extract_file ops (ctx st) h = (status, c') \<and>
              loop_body ops sys buffer st
                = (if status \<noteq> 0
                   then Break status (st1\<lparr>ctx := c', calls := calls st @ [Ev_extract_file h]\<rparr>)
                   else Continue (st1\<lparr>ctx := c', calls := calls st @ [Ev_extract_file h]\<rparr>))"
      by blast
  }
qed

theorem regular_file_trailing_slash_witness:
  "DecodeTarHeader nosys file_d_slash = (True, entry NormalFile1 [0x64, 0x2F, 0] [0]) \<and>
   apply_pending (entry NormalFile1 [0x64, 0x2F, 0] [0]) (initial_state no_log)
     = (entry NormalFile1 [0x64, 0x2F, 0] [0], initial_state no_log) \<and>
   strlen (Name (entry NormalFile1 [0x64, 0x2F, 0] [0])) = Some 2 \<and>
   last (c_str (Name (entry NormalFile1 [0x64, 0x2F, 0] [0]))) = SLASH \<and>
   mkdir logging_ops no_log (entry NormalFile1 [0x64, 0, 0] [0])
     = (0, [Ev_mkdir (entry NormalFile1 [0x64, 0, 0] [0])]) \<and>
   loop_body logging_ops nosys file_d_slash (initial_state no_log)
     = Continue ((initial_state no_log)
         \<lparr>ctx := [Ev_mkdir (entry NormalFile1 [0x64, 0, 0] [0])],
          calls := calls (initial_state no_log) @ [Ev_mkdir (entry NormalFile1 [0x64, 0, 0] [0])]\<rparr>) \<and>
   DecodeTarHeader nosys file_a = (True, entry NormalFile1 [0x61, 0] [0]) \<and>
   apply_pending (entry NormalFile1 [0x61, 0] [0]) (initial_state no_log)
     = (entry NormalFile1 [0x61, 0] [0], initial_state no_log) \<and>
   strlen (Name (entry NormalFile1 [0x61, 0] [0])) = Some 1 \<and>
   last (c_str (Name (entry NormalFile1 [0x61, 0] [0]))) \<noteq> SLASH \<and>
   extract_file logging_ops no_log (entry NormalFile1 [0x61, 0] [0])
     = (0, [Ev_extract_file (entry NormalFile1 [0x61, 0] [0])]) \<and>
   loop_body logging_ops nosys file_a (initial_state no_log)
     = Continue ((initial_state no_log)
         \<lparr>ctx := [Ev_extract_file (entry NormalFile1 [0x61, 0] [0])],
          calls := calls (initial_state no_log) @ [Ev_extract_file (entry NormalFile1 [0x61, 0] [0])]\<rparr>)"
proof -
  let ?d = "entry NormalFile1 [0x64, 0x2F, 0] [0]"
  let ?d' = "entry NormalFile1 [0x64, 0, 0] [0]"
  let ?a = "entry NormalFile1 [0x61, 0] [0]"
  let ?st = "initial_state no_log"
  have d1: "DecodeTarHeader nosys file_d_slash = (True, ?d)" by code_simp
  have d2: "apply_pending ?d ?st = (?d, ?st)" by code_simp
  have d3: "Type ?d = NormalFile0 \<or> Type ?d = NormalFile1" by (simp add: entry_def)
  have d4: "strlen (Name ?d) = Some 2" by code_simp
  have d5: "last (c_str (Name ?d)) = SLASH" by code_simp
  have d6: "?d\<lparr>Name := (Name ?d)[2 - 1 := NUL]\<rparr> = ?d'" by (simp add: entry_def NUL_def)
  have d7: "mkdir logging_ops (ctx ?st) ?d' = (0, [Ev_mkdir ?d'])"
    by (simp add: logging_ops_def initial_state_def no_log_def)
  have d8: "mkdir logging_ops no_log ?d' = (0, [Ev_mkdir ?d'])"
    by (simp add: logging_ops_def no_log_def)
  have a1: "DecodeTarHeader nosys file_a = (True, ?a)" by code_simp
  have a2: "apply_pending ?a ?st = (?a, ?st)" by code_simp
  have a3: "Type ?a = NormalFile0 \<or> Type ?a = NormalFile1" by (simp add: entry_def)
  have a4: "strlen (Name ?a) = Some 1" by code_simp
  have a5: "last (c_str (Name ?a)) \<noteq> SLASH" by code_simp
  have a7: "extract_file logging_ops (ctx ?st) ?a = (0, [Ev_extract_file ?a])"
    by (simp add: logging_ops_def initial_state_def no_log_def)
  have a8: "extract_file logging_ops no_log ?a = (0, [Ev_extract_file ?a])"
    by (simp add: logging_ops_def no_log_def)
  from regular_file_trailing_slash [OF d1 d2 d3 d4 zero_less_numeral, of logging_ops,
      THEN conjunct1, THEN mp, OF d5]
  have A: "loop_body logging_ops nosys file_d_slash ?st
             = Continue (?st\<lparr>ctx := [Ev_mkdir ?d'], calls := calls ?st @ [Ev_mkdir ?d']\<rparr>)"
    using d7 unfolding d6 by auto
  from regular_file_trailing_slash [OF a1 a2 a3 a4 zero_less_one, of logging_ops,
      THEN conjunct2, THEN mp, OF a5]
  have B: "loop_body logging_ops nosys file_a ?st
             = Continue (?st\<lparr>ctx := [Ev_extract_file ?a], calls := calls ?st @ [Ev_extract_file ?a]\<rparr>)"
    using a7 by auto
  from d1 d2 d4 d5 d8 A a1 a2 a4 a5 a8 B show ?thesis
    by (intro conjI) assumption+
qed

text \<open>
  C9. The octal parser skips leading spaces and accumulates octal digits up to the first
  other byte or the end of the field (\<open>OtoL_octal_value\<close>, \<open>OtoL_examples\<close>), but it
  accumulates in the 32-bit \<^verbatim>\<open>int n\<close>: the value returned is the accumulated value only
  while that stays below \<open>2 ^ 31\<close> (\<open>OtoL_exact_small\<close>). On the 12-byte size field
  \<^verbatim>\<open>"20000000000 "\<close>, whose value is \<open>2 ^ 31\<close>, the parser returns \<open>- 2 ^ 31\<close>.
\<close>

theorem OtoL_overflow:
  "OtoL [0x32, 0x30, 0x30, 0x30, 0x30, 0x30, 0x30, 0x30, 0x30, 0x30, 0x30, 0x20] 12 = - 2147483648
   \<and> octal_value [0x32, 0x30, 0x30, 0x30, 0x30, 0x30, 0x30, 0x30, 0x30, 0x30, 0x30, 0x20] = 2147483648"
  by code_simp

text \<open>
  C10. \<open>TarExtractor\<close> never returns a positive value. What it returns is the status \<open>s\<close>
  left by the main loop and the drain phase, with every positive \<open>s\<close> replaced by \<open>- 1\<close>
  and every other \<open>s\<close> as it is: zero when \<open>s\<close> is zero, and a negative value when it is
  not. In particular a header read that returns between 1 and 511 bytes ends the run
  with \<open>- 1\<close>, the read being the last action.
\<close>

theorem never_positive:
  "(TarExtractor ops sys c = Some (Returned r c' tr) \<longrightarrow>
      r \<le> 0 \<and>
      (\<exists>status st s st'.
         main_loop ops sys (initial_state c) = Some (Break status st) \<and>
         drain ops (symlink_list st) status st = (s, st') \<and>
         r = (if 0 < s then - 1 else s) \<and> (r = 0) = (s = 0) \<and> (r < 0) = (s \<noteq> 0) \<and>
         c' = ctx st' \<and> tr = calls st'))
   \<and> (passes ops sys k (initial_state c) = Some st0 \<and>
        call_read ops st0 = (n, buffer, st1) \<and> 0 < n \<and> n \<noteq> int TARBLKSZ \<longrightarrow>
        main_loop ops sys st0 = Some (Break n st1) \<and>
        TarExtractor ops sys c = Some (Returned (- 1) (ctx st1) (calls st1)))"
proof (intro conjI impI)
  assume run: "TarExtractor ops sys c = Some (Returned r c' tr)"
  then have "run_from ops sys (initial_state c) = Some (Returned r c' tr)"
    by (simp add: TarExtractor_def)
  then obtain status st where
    loop: "main_loop ops sys (initial_state c) = Some (Break status st)" and
    fin: "finish ops status st = Returned r c' tr"
    by (rule run_from_cases)
  from fin show "r \<le> 0" by (rule finish_nonpositive)
  obtain s st' where d: "drain ops (symlink_list st) status st = (s, st')"
    by (cases "drain ops (symlink_list st) status st")
  with fin have r: "r = (if 0 < s then - 1 else s)" and "c' = ctx st'" and "tr = calls st'"
    by (simp_all add: finish_def)
  moreover from r have "(r = 0) = (s = 0) \<and> (r < 0) = (s \<noteq> 0)" by auto
  ultimately show "\<exists>status st s st'.
         main_loop ops sys (initial_state c) = Some (Break status st) \<and>
         drain ops (symlink_list st) status st = (s, st') \<and>
         r = (if 0 < s then - 1 else s) \<and> (r = 0) = (s = 0) \<and> (r < 0) = (s \<noteq> 0) \<and>
         c' = ctx st' \<and> tr = calls st'"
    using loop d by blast
next
  assume a: "passes ops sys k (initial_state c) = Some st0 \<and>
        call_read ops st0 = (n, buffer, st1) \<and> 0 < n \<and> n \<noteq> int TARBLKSZ"
  then have p: "passes ops sys k (initial_state c) = Some st0"
    and rd: "call_read ops st0 = (n, buffer, st1)" and pos: "0 < n" and ne: "n \<noteq> int TARBLKSZ"
    by simp_all
  from iteration_short [OF rd ne] have i: "iteration ops sys st0 = Break n st1" .
  from i show "main_loop ops sys st0 = Some (Break n st1)" by (rule main_loop_Break)
  from pos have "n \<noteq> 0" by simp
  from run_from_Break [OF i] finish_failed [OF this, of ops st1] pos
    TarExtractor_passes [OF p]
  show "TarExtractor ops sys c = Some (Returned (- 1) (ctx st1) (calls st1))"
    by simp
qed

theorem never_positive_witness:
  "passes (stream_ops 0 0) nosys 0 (initial_state [replicate 100 NUL])
     = Some (initial_state [replicate 100 NUL]) \<and>
   call_read (stream_ops 0 0) (initial_state [replicate 100 NUL])
     = (100, replicate 100 NUL, state_of [] [Ev_read 100]) \<and>
   (0 :: int) < 100 \<and> (100 :: int) \<noteq> int TARBLKSZ \<and>
   main_loop (stream_ops 0 0) nosys (initial_state [replicate 100 NUL])
     = Some (Break 100 (state_of [] [Ev_read 100])) \<and>
   drain (stream_ops 0 0) (symlink_list (state_of [] [Ev_read 100])) 100 (state_of [] [Ev_read 100])
     = (100, state_of [] [Ev_read 100]) \<and>
   TarExtractor (stream_ops 0 0) nosys [replicate 100 NUL]
     = Some (Returned (- 1) [] [Ev_read 100]) \<and>
   (- 1 :: int) \<le> 0 \<and>
   (\<exists>status st s st'.
      main_loop (stream_ops 0 0) nosys (initial_state [replicate 100 NUL]) = Some (Break status st) \<and>
      drain (stream_ops 0 0) (symlink_list st) status st = (s, st') \<and>
      (- 1 :: int) = (if 0 < s then - 1 else s) \<and> ((- 1 :: int) = 0) = (s = 0) \<and>
      ((- 1 :: int) < 0) = (s \<noteq> 0) \<and> [] = ctx st' \<and> [Ev_read 100] = calls st')"
proof -
  let ?c = "[replicate 100 NUL]"
  let ?st1 = "state_of [] [Ev_read 100]"
  have p: "passes (stream_ops 0 0) nosys 0 (initial_state ?c) = Some (initial_state ?c)"
    by simp
  have rd: "call_read (stream_ops 0 0) (initial_state ?c) = (100, replicate 100 NUL, ?st1)"
    by code_simp
  have pos: "(0 :: int) < 100" and ne: "(100 :: int) \<noteq> int TARBLKSZ"
    by (simp_all add: TARBLKSZ_def)
  have dr: "drain (stream_ops 0 0) (symlink_list ?st1) 100 ?st1 = (100, ?st1)"
    by (simp add: state_of_def)
  have s: "ctx ?st1 = []" "calls ?st1 = [Ev_read 100]" by (simp_all add: state_of_def)
  from never_positive [of "stream_ops 0 0" nosys ?c _ _ _ 0 "initial_state ?c" 100
      "replicate 100 NUL" ?st1, THEN conjunct2, THEN mp, OF conjI [OF p conjI [OF rd conjI [OF pos ne]]]]
  have loop: "main_loop (stream_ops 0 0) nosys (initial_state ?c) = Some (Break 100 ?st1)"
    and run: "TarExtractor (stream_ops 0 0) nosys ?c = Some (Returned (- 1) [] [Ev_read 100])"
    unfolding s by simp_all
  from never_positive [of "stream_ops 0 0" nosys ?c "- 1" "[]" "[Ev_read 100]",
      THEN conjunct1, THEN mp, OF run]
  have le: "(- 1 :: int) \<le> 0"
    and ex: "\<exists>status st s st'.
      main_loop (stream_ops 0 0) nosys (initial_state ?c) = Some (Break status st) \<and>
      drain (stream_ops 0 0) (symlink_list st) status st = (s, st') \<and>
      (- 1 :: int) = (if 0 < s then - 1 else s) \<and> ((- 1 :: int) = 0) = (s = 0) \<and>
      ((- 1 :: int) < 0) = (s \<noteq> 0) \<and> [] = ctx st' \<and> [Ev_read 100] = calls st'"
    by (rule conjunct1, rule conjunct2)
  from p rd pos ne loop dr run le ex show ?thesis
    by (intro conjI) assumption+
qed

end
